theory Spec2Isabelle
  imports Main
begin

section \<open>Data model\<close>

text \<open>
  The crawler of \<^verbatim>\<open>main.go\<close>: a discovery phase (\<^verbatim>\<open>discoverURLs\<close>, one goroutine per
  followed link, all sharing the \<^verbatim>\<open>visited\<close> map and the \<^verbatim>\<open>count\<close> under the mutex
  \<^verbatim>\<open>mu\<close>), the buffered channel \<^verbatim>\<open>worklist\<close>, a pool of \<^verbatim>\<open>worker\<close> goroutines, and
  \<^verbatim>\<open>main\<close>, which waits on \<^verbatim>\<open>done\<close>, closes the worklist, waits for the workers and
  saves the statistics.

  Go values are modelled as follows. \<^verbatim>\<open>error\<close> is a message; a panic is a value of its
  own type. The \<^verbatim>\<open>int\<close> and \<^verbatim>\<open>atomic.Int64\<close> counters are \<open>int\<close>: \<^verbatim>\<open>count\<close> never
  exceeds \<^verbatim>\<open>maxURLs\<close>, itself a Go \<^verbatim>\<open>int\<close>, the statistics count items of which there
  are no more than admissions, and the wait group counts the workers, so none can wrap.
\<close>

datatype error = Error string

datatype panic = NilPointerDereference | SendOnClosedChannel | CloseOfClosedChannel

subsection \<open>HTML tokens and the URL library\<close>

text \<open>
  A response body is the sequence of tokens that \<^verbatim>\<open>html.Tokenizer\<close> yields from it. The
  tokenizer reports the end of the input (or a read error) as an \<^verbatim>\<open>ErrorToken\<close>; a
  body that is read to its end is a list without one.
\<close>

datatype token_type =
  ErrorToken | TextToken | StartTagToken | EndTagToken
  | SelfClosingTagToken | CommentToken | DoctypeToken

record attribute =
  Key :: string
  Val :: string

record token =
  Type :: token_type
  Data :: string
  Attr :: "attribute list"

text \<open>
  The functions of \<^verbatim>\<open>net/url\<close> that \<^verbatim>\<open>extractLinks\<close> calls are not part of the
  repository; they are parameters. \<open>'u\<close> is the type of a parsed \<^verbatim>\<open>url.URL\<close>, a
  \<^verbatim>\<open>*url.URL\<close> is an \<open>'u option\<close> with \<open>None\<close> for \<^verbatim>\<open>nil\<close>.
  \<^item> \<open>url_Parse\<close> is \<^verbatim>\<open>url.Parse\<close>: \<open>None\<close> when it returns \<^verbatim>\<open>(nil, err)\<close>.
  \<^item> \<open>URL_Parse\<close> is the method \<^verbatim>\<open>(*URL).Parse\<close>, which Go lets the code call on a
    \<^verbatim>\<open>nil\<close> receiver as well: it panics, returns an error (\<open>Inr None\<close>) or returns
    the resolved link.
  \<^item> \<open>URL_String\<close> is \<^verbatim>\<open>(*URL).String\<close>.
\<close>

record 'u urllib =
  url_Parse :: "string \<Rightarrow> 'u option"
  URL_Parse :: "'u option \<Rightarrow> string \<Rightarrow> panic + 'u option"
  URL_String :: "'u \<Rightarrow> string"

subsection \<open>Responses, statistics, configuration\<close>

record response =
  StatusCode :: int
  Body :: "token list"

record CrawlStats =
  TotalPages :: int
  SuccessPages :: int
  FailedPages :: int
  Duration :: int
  StartURL :: string

text \<open>
  What the collaborators of one \<^verbatim>\<open>scrapeURLFromWorklist\<close> call answer: the error of
  \<^verbatim>\<open>makeRequestWithContext\<close>, of \<^verbatim>\<open>parser.GetSEOData\<close> and of \<^verbatim>\<open>savePage\<close>
  (\<open>None\<close> for \<^verbatim>\<open>nil\<close>). A later one is consulted only when the earlier ones are \<^verbatim>\<open>nil\<close>.
\<close>

record scrape_env =
  request_error :: "error option"
  parse_error :: "error option"
  save_error :: "error option"

text \<open>
  What the program writes to its logs: \<^verbatim>\<open>log.Printf("failed to scrape %s: %v", ...)\<close> of a
  worker, the final \<^verbatim>\<open>log.Printf("Scraping complete! ...")\<close> and the \<^verbatim>\<open>log.Fatal\<close> of
  \<^verbatim>\<open>main\<close>, and \<^verbatim>\<open>slog.Error("failed to create request", ...)\<close> of \<^verbatim>\<open>makeRequest\<close>.
\<close>

datatype log_entry =
  FailedToScrape string error
  | ScrapingComplete int int nat
  | FatalDatabase error
  | FailedToCreateRequest string

text \<open>
  The arguments \<^verbatim>\<open>seedURL\<close> and \<^verbatim>\<open>maxURLs\<close> of \<^verbatim>\<open>discoverURLs\<close> and the number of
  workers, together with the URL library. \<^verbatim>\<open>main\<close> fixes all three (\<open>main_config\<close>);
  \<^verbatim>\<open>numWorkers\<close> is a local constant of \<^verbatim>\<open>main\<close>. The capacity of the worklist, the
  sleep of the seed goroutine and the timeout of the discovery client are constants of
  the code.
\<close>

record 'u config =
  lib :: "'u urllib"
  seedURL :: string
  maxURLs :: int
  numWorkers :: int

definition worklist_capacity :: nat where
  "worklist_capacity = 100"

definition sleep_seconds :: nat where
  "sleep_seconds = 5"

definition client_timeout :: nat where
  "client_timeout = 10"

definition main_config :: "'u urllib \<Rightarrow> 'u config" where
  "main_config L =
     \<lparr>lib = L, seedURL = ''http://books.toscrape.com'', maxURLs = 100, numWorkers = 5\<rparr>"

section \<open>Link extraction\<close>

text \<open>
  \<^verbatim>\<open>extractLinks\<close>: the base is parsed once and the error is discarded, so \<open>base\<close> is
  \<^verbatim>\<open>nil\<close> when the base does not parse. Every \<^verbatim>\<open>href\<close> of every \<^verbatim>\<open>a\<close> start tag is
  resolved with \<^verbatim>\<open>base.Parse\<close>; a link is appended when that returns no error.
\<close>

fun scan_attrs ::
  "'u urllib \<Rightarrow> 'u option \<Rightarrow> attribute list \<Rightarrow> string list \<Rightarrow> panic + string list" where
  "scan_attrs L base [] links = Inr links"
| "scan_attrs L base (a # as) links =
     (if Key a = ''href'' then
        (case URL_Parse L base (Val a) of
           Inl p \<Rightarrow> Inl p
         | Inr None \<Rightarrow> scan_attrs L base as links
         | Inr (Some link) \<Rightarrow> scan_attrs L base as (links @ [URL_String L link]))
      else scan_attrs L base as links)"

fun scan_tokens ::
  "'u urllib \<Rightarrow> 'u option \<Rightarrow> token list \<Rightarrow> string list \<Rightarrow> panic + string list" where
  "scan_tokens L base [] links = Inr links"
| "scan_tokens L base (t # ts) links =
     (if Type t = ErrorToken then Inr links
      else if Type t = StartTagToken \<and> Data t = ''a'' then
        (case scan_attrs L base (Attr t) links of
           Inl p \<Rightarrow> Inl p
         | Inr links' \<Rightarrow> scan_tokens L base ts links')
      else scan_tokens L base ts links)"

definition extractLinks :: "'u urllib \<Rightarrow> token list \<Rightarrow> string \<Rightarrow> panic + string list" where
  "extractLinks L body baseURL = scan_tokens L (url_Parse L baseURL) body []"

section \<open>The running program\<close>

subsection \<open>Program points\<close>

text \<open>
  The program points of a discovery goroutine. The first block is the body of
  \<^verbatim>\<open>crawl\<close>; \<open>Sleeping\<close> and \<open>Signalling\<close> are the rest of the seed goroutine
  (\<^verbatim>\<open>time.Sleep(5 * time.Second); done <- true\<close>).
\<close>

datatype pc =
  Locking string                         \<comment> \<open>at \<^verbatim>\<open>mu.Lock()\<close>\<close>
  | Checking string                      \<comment> \<open>holding \<^verbatim>\<open>mu\<close>, at the \<^verbatim>\<open>if\<close>\<close>
  | Rejecting string                     \<comment> \<open>at \<^verbatim>\<open>mu.Unlock(); return\<close>\<close>
  | Marking string                       \<comment> \<open>at \<^verbatim>\<open>visited[url] = true\<close>\<close>
  | Counting string                      \<comment> \<open>at \<^verbatim>\<open>count++\<close>\<close>
  | Reading string                       \<comment> \<open>at \<^verbatim>\<open>current := count\<close>\<close>
  | Unlocking string int                 \<comment> \<open>at \<^verbatim>\<open>mu.Unlock()\<close>\<close>
  | Requesting string int nat            \<comment> \<open>in \<^verbatim>\<open>makeRequest(url)\<close>, with its start time\<close>
  | Sending string int "token list"      \<comment> \<open>at \<^verbatim>\<open>worklist <- url\<close>\<close>
  | Extracting string int "token list"   \<comment> \<open>at \<^verbatim>\<open>extractLinks(resp.Body, url)\<close>\<close>
  | Looping string int "string list"     \<comment> \<open>in the loop, with the links left\<close>
  | Sleeping nat                         \<comment> \<open>in \<^verbatim>\<open>time.Sleep\<close>, with the wake-up time\<close>
  | Signalling                           \<comment> \<open>at \<^verbatim>\<open>done <- true\<close>\<close>
  | Finished

datatype main_pc = AwaitDone | CloseWorklist | WaitWorkers | SaveStats | Exited

datatype worker_pc = Receiving | Scraping string | WorkerDone

text \<open>
  What has happened so far, newest first. The program never reads it; the properties
  below are stated on it. Goroutines and workers are named by their index.
\<close>

datatype action =
  Admit nat string             \<comment> \<open>the check under the lock passed\<close>
  | Reject nat string          \<comment> \<open>the check under the lock failed\<close>
  | FetchError nat string      \<comment> \<open>\<^verbatim>\<open>makeRequest\<close> returned an error\<close>
  | Fetched nat string int     \<comment> \<open>\<^verbatim>\<open>makeRequest\<close> returned a response with this status\<close>
  | Push nat string            \<comment> \<open>\<^verbatim>\<open>worklist <- url\<close> completed\<close>
  | Spawn nat nat string       \<comment> \<open>\<^verbatim>\<open>go crawl(link)\<close>: parent, child, link\<close>
  | Skip nat string            \<comment> \<open>a link passed over because \<^verbatim>\<open>current >= maxURLs\<close>\<close>
  | SignalDone
  | Close
  | Pop nat string             \<comment> \<open>a worker received an item\<close>
  | ScrapeOk nat string
  | ScrapeFailed nat string

record state =
  clock :: nat
  visited :: "string \<rightharpoonup> bool"
  count :: int
  mu :: bool
  goroutines :: "(bool \<times> pc) list"
  worklist :: "string list"
  closed :: bool
  mainpc :: main_pc
  workers :: "worker_pc list"
  wg :: int
  completedPages :: int
  successPages :: int
  failedPages :: int
  logged :: "log_entry list"
  stats :: "CrawlStats option"
  panicked :: "panic option"
  history :: "action list"

text \<open>Reading the Go map \<^verbatim>\<open>visited\<close>: a missing key reads as \<^verbatim>\<open>false\<close>.\<close>

definition is_visited :: "(string \<rightharpoonup> bool) \<Rightarrow> string \<Rightarrow> bool" where
  "is_visited m u = (case m u of None \<Rightarrow> False | Some b \<Rightarrow> b)"

subsection \<open>The discovery goroutines\<close>

text \<open>
  Where a goroutine continues when its \<^verbatim>\<open>crawl\<close> returns: the seed goroutine goes on
  to \<^verbatim>\<open>time.Sleep(5 * time.Second)\<close>, a goroutine started by \<^verbatim>\<open>go crawl(link)\<close> ends.
\<close>

definition crawl_returns :: "bool \<Rightarrow> nat \<Rightarrow> pc" where
  "crawl_returns is_seed t = (if is_seed then Sleeping (t + sleep_seconds) else Finished)"

definition at_pc :: "nat \<Rightarrow> bool \<times> pc \<Rightarrow> state \<Rightarrow> state" where
  "at_pc g p s = s\<lparr>goroutines := (goroutines s)[g := p]\<rparr>"

definition record_action :: "action \<Rightarrow> state \<Rightarrow> state" where
  "record_action a s = s\<lparr>history := a # history s\<rparr>"

definition panic_with :: "panic \<Rightarrow> state \<Rightarrow> state" where
  "panic_with p s = s\<lparr>panicked := Some p\<rparr>"

text \<open>
  One action of goroutine \<open>g\<close>; \<open>None\<close> when the goroutine cannot move (it waits for
  the mutex, for room in the worklist, for its request, for its timer or for \<^verbatim>\<open>main\<close> to
  receive from \<^verbatim>\<open>done\<close>).
\<close>

fun crawl_step :: "'u config \<Rightarrow> nat \<Rightarrow> bool \<Rightarrow> pc \<Rightarrow> state \<Rightarrow> state option" where
  "crawl_step C g sd (Locking u) s =
     (if mu s then None else Some (at_pc g (sd, Checking u) (s\<lparr>mu := True\<rparr>)))"
| "crawl_step C g sd (Checking u) s =
     (if is_visited (visited s) u \<or> count s \<ge> maxURLs C
      then Some (record_action (Reject g u) (at_pc g (sd, Rejecting u) s))
      else Some (record_action (Admit g u) (at_pc g (sd, Marking u) s)))"
| "crawl_step C g sd (Rejecting u) s =
     Some (at_pc g (sd, crawl_returns sd (clock s)) (s\<lparr>mu := False\<rparr>))"
| "crawl_step C g sd (Marking u) s =
     Some (at_pc g (sd, Counting u) (s\<lparr>visited := (visited s)(u \<mapsto> True)\<rparr>))"
| "crawl_step C g sd (Counting u) s =
     Some (at_pc g (sd, Reading u) (s\<lparr>count := count s + 1\<rparr>))"
| "crawl_step C g sd (Reading u) s =
     Some (at_pc g (sd, Unlocking u (count s)) s)"
| "crawl_step C g sd (Unlocking u current) s =
     Some (at_pc g (sd, Requesting u current (clock s)) (s\<lparr>mu := False\<rparr>))"
| "crawl_step C g sd (Requesting u current t0) s = None"
| "crawl_step C g sd (Sending u current body) s =
     (if closed s then Some (panic_with SendOnClosedChannel s)
      else if length (worklist s) < worklist_capacity
      then Some (record_action (Push g u)
             (at_pc g (sd, Extracting u current body) (s\<lparr>worklist := worklist s @ [u]\<rparr>)))
      else None)"
| "crawl_step C g sd (Extracting u current body) s =
     (case extractLinks (lib C) body u of
        Inl p \<Rightarrow> Some (panic_with p s)
      | Inr links \<Rightarrow> Some (at_pc g (sd, Looping u current links) s))"
| "crawl_step C g sd (Looping u current []) s =
     Some (at_pc g (sd, crawl_returns sd (clock s)) s)"
| "crawl_step C g sd (Looping u current (link # links)) s =
     (if current < maxURLs C
      then Some (record_action (Spawn g (length (goroutines s)) link)
             (s\<lparr>goroutines := (goroutines s)[g := (sd, Looping u current links)]
                                 @ [(False, Locking link)]\<rparr>))
      else Some (record_action (Skip g link) (at_pc g (sd, Looping u current links) s)))"
| "crawl_step C g sd (Sleeping t) s =
     (if t \<le> clock s then Some (at_pc g (sd, Signalling) s) else None)"
| "crawl_step C g sd Signalling s =
     (if mainpc s = AwaitDone
      then Some (record_action SignalDone (at_pc g (sd, Finished) (s\<lparr>mainpc := CloseWorklist\<rparr>)))
      else None)"
| "crawl_step C g sd Finished s = None"

text \<open>\<^verbatim>\<open>fmt.Errorf(prefix + "%w", err)\<close>.\<close>

definition wrap_error :: "string \<Rightarrow> error \<Rightarrow> error" where
  "wrap_error prefix e = (case e of Error msg \<Rightarrow> Error (prefix @ msg))"

text \<open>
  \<^verbatim>\<open>makeRequest\<close>, given what \<^verbatim>\<open>client.Do\<close> answers: the records it logs and what it
  returns. \<^verbatim>\<open>http.NewRequest\<close> fails exactly when \<^verbatim>\<open>url.Parse\<close> fails on the URL (the
  method is the constant \<^verbatim>\<open>"GET"\<close>); on that path, and on no other, \<^verbatim>\<open>makeRequest\<close>
  writes an \<^verbatim>\<open>slog.Error\<close> record, \<open>FailedToCreateRequest\<close>, before it returns the error,
  and \<^verbatim>\<open>client.Do\<close> is not called. The error of \<^verbatim>\<open>url.Parse\<close> itself is not kept:
  \<^verbatim>\<open>crawl\<close> drops the error it gets.
\<close>

definition makeRequest ::
  "'u urllib \<Rightarrow> string \<Rightarrow> error + response \<Rightarrow> log_entry list \<times> (error + response)" where
  "makeRequest L url answer =
     (case url_Parse L url of
        None \<Rightarrow> ([FailedToCreateRequest url], Inl (Error ''failed to create request''))
      | Some parsed \<Rightarrow>
          (case answer of
             Inl err \<Rightarrow> ([], Inl (wrap_error ''request failed: '' err))
           | Inr resp \<Rightarrow> ([], Inr resp)))"

text \<open>
  \<^verbatim>\<open>makeRequest\<close> of goroutine \<open>g\<close> returns, \<open>r\<close> being the answer of \<^verbatim>\<open>client.Do\<close>
  (not used when the request cannot be created). A response arrives within the timeout
  of the client; an error may come at any time (after the timeout nothing else does).
  An error or a status other than 200 returns from \<^verbatim>\<open>crawl\<close>.
\<close>

fun request_returns ::
  "'u config \<Rightarrow> nat \<Rightarrow> error + response \<Rightarrow> bool \<Rightarrow> pc \<Rightarrow> state \<Rightarrow> state option" where
  "request_returns C g r sd (Requesting u current t0) s =
     (case makeRequest (lib C) u r of
        (logs, Inl err) \<Rightarrow>
          Some (record_action (FetchError g u)
            (at_pc g (sd, crawl_returns sd (clock s)) (s\<lparr>logged := logged s @ logs\<rparr>)))
      | (logs, Inr resp) \<Rightarrow>
          (if t0 + client_timeout < clock s then None
           else if StatusCode resp \<noteq> 200
           then Some (record_action (Fetched g u (StatusCode resp))
                  (at_pc g (sd, crawl_returns sd (clock s)) (s\<lparr>logged := logged s @ logs\<rparr>)))
           else Some (record_action (Fetched g u (StatusCode resp))
                  (at_pc g (sd, Sending u current (Body resp))
                     (s\<lparr>logged := logged s @ logs\<rparr>)))))"
| "request_returns C g r sd p s = None"

subsection \<open>The workers\<close>

text \<open>
  \<^verbatim>\<open>scrapeURLFromWorklist\<close> on the three global counters: the returned error and the
  state with the counters updated.
\<close>

definition scrapeURLFromWorklist :: "string \<Rightarrow> scrape_env \<Rightarrow> state \<Rightarrow> error option \<times> state" where
  "scrapeURLFromWorklist url env s =
     (case request_error env of
        Some err \<Rightarrow>
          (Some (wrap_error ''request failed: '' err), s\<lparr>failedPages := failedPages s + 1\<rparr>)
      | None \<Rightarrow>
          (case parse_error env of
             Some err \<Rightarrow>
               (Some (wrap_error ''parse failed: '' err), s\<lparr>failedPages := failedPages s + 1\<rparr>)
           | None \<Rightarrow>
               (case save_error env of
                  Some err \<Rightarrow>
                    (Some (wrap_error ''db insert failed: '' err),
                     s\<lparr>failedPages := failedPages s + 1\<rparr>)
                | None \<Rightarrow>
                    (None, s\<lparr>successPages := successPages s + 1,
                              completedPages := completedPages s + 1\<rparr>))))"

text \<open>
  \<^verbatim>\<open>worker\<close>: the receive of \<^verbatim>\<open>for url := range worklist\<close> (\<open>None\<close> while the channel is
  empty and open; the loop ends, and \<^verbatim>\<open>wg.Done()\<close> runs, when it is empty and closed),
  and the body of the loop once the collaborators have answered.
\<close>

fun worker_receives :: "nat \<Rightarrow> worker_pc \<Rightarrow> state \<Rightarrow> state option" where
  "worker_receives w Receiving s =
     (case worklist s of
        url # rest \<Rightarrow>
          Some (record_action (Pop w url)
            (s\<lparr>worklist := rest, workers := (workers s)[w := Scraping url]\<rparr>))
      | [] \<Rightarrow>
          (if closed s
           then Some (s\<lparr>workers := (workers s)[w := WorkerDone], wg := wg s - 1\<rparr>)
           else None))"
| "worker_receives w p s = None"

fun worker_scrapes :: "nat \<Rightarrow> scrape_env \<Rightarrow> worker_pc \<Rightarrow> state \<Rightarrow> state option" where
  "worker_scrapes w env (Scraping url) s =
     (case scrapeURLFromWorklist url env s of
        (Some err, s') \<Rightarrow>
          Some (record_action (ScrapeFailed w url)
            (s'\<lparr>logged := logged s' @ [FailedToScrape url err],
                workers := (workers s')[w := Receiving]\<rparr>))
      | (None, s') \<Rightarrow>
          Some (record_action (ScrapeOk w url) (s'\<lparr>workers := (workers s')[w := Receiving]\<rparr>)))"
| "worker_scrapes w env p s = None"

subsection \<open>\<^verbatim>\<open>main\<close>\<close>

text \<open>
  \<^verbatim>\<open>main\<close> after it has started the goroutines: it is blocked in \<^verbatim>\<open><-done\<close> until the
  seed goroutine sends (the step of \<open>Signalling\<close>), then closes the worklist, waits for
  the wait group to reach zero, saves the statistics and returns.
\<close>

fun main_step :: "'u config \<Rightarrow> main_pc \<Rightarrow> state \<Rightarrow> state option" where
  "main_step C AwaitDone s = None"
| "main_step C CloseWorklist s =
     (if closed s then Some (panic_with CloseOfClosedChannel s)
      else Some (record_action Close (s\<lparr>closed := True, mainpc := WaitWorkers\<rparr>)))"
| "main_step C WaitWorkers s =
     (if wg s = 0 then Some (s\<lparr>mainpc := SaveStats\<rparr>) else None)"
| "main_step C SaveStats s =
     Some (s\<lparr>stats := Some \<lparr>TotalPages = completedPages s, SuccessPages = successPages s,
                             FailedPages = failedPages s, Duration = int (clock s),
                             StartURL = seedURL C\<rparr>,
              logged := logged s @ [ScrapingComplete (successPages s) (failedPages s) (clock s)],
              mainpc := Exited\<rparr>)"
| "main_step C Exited s = None"

text \<open>
  The start of \<^verbatim>\<open>main\<close>: \<^verbatim>\<open>initDB\<close> (a failure is fatal), the loop that starts the
  workers, and \<^verbatim>\<open>go discoverURLs(...)\<close>, which creates the map, the mutex and the
  counter and starts the seed goroutine.
\<close>

definition empty_state :: state where
  "empty_state =
     \<lparr>clock = 0, visited = Map.empty, count = 0, mu = False, goroutines = [],
      worklist = [], closed = False, mainpc = AwaitDone, workers = [], wg = 0,
      completedPages = 0, successPages = 0, failedPages = 0, logged = [],
      stats = None, panicked = None, history = []\<rparr>"

function start_workers :: "int \<Rightarrow> int \<Rightarrow> state \<Rightarrow> state" where
  "start_workers i n s =
     (if i < n
      then start_workers (i + 1) n (s\<lparr>wg := wg s + 1, workers := workers s @ [Receiving]\<rparr>)
      else s)"
  by pat_completeness auto
termination
  by (relation "measure (\<lambda>(i, n, s). nat (n - i))") auto

declare start_workers.simps [simp del]

definition discoverURLs :: "string \<Rightarrow> state \<Rightarrow> state" where
  "discoverURLs seed s =
     s\<lparr>visited := Map.empty, count := 0, mu := False, goroutines := [(True, Locking seed)]\<rparr>"

definition main_start :: "'u config \<Rightarrow> error option \<Rightarrow> state" where
  "main_start C initDB_error =
     (case initDB_error of
        Some err \<Rightarrow> empty_state\<lparr>logged := [FatalDatabase err], mainpc := Exited\<rparr>
      | None \<Rightarrow> discoverURLs (seedURL C) (start_workers 0 (numWorkers C) empty_state))"

subsection \<open>Schedules\<close>

text \<open>
  The scheduler and the environment choose what happens next: a goroutine, a worker or
  \<^verbatim>\<open>main\<close> moves, a request or a scrape completes with the answer given, or a second
  passes. Nothing moves once \<^verbatim>\<open>main\<close> has returned or a goroutine has panicked.
\<close>

datatype event =
  Go nat
  | Response nat "error + response"
  | Work nat
  | Scraped nat scrape_env
  | Main
  | Tick

fun step :: "'u config \<Rightarrow> event \<Rightarrow> state \<Rightarrow> state option" where
  "step C e s =
     (if panicked s \<noteq> None \<or> mainpc s = Exited then None
      else
        (case e of
           Go g \<Rightarrow>
             (if g < length (goroutines s)
              then crawl_step C g (fst (goroutines s ! g)) (snd (goroutines s ! g)) s
              else None)
         | Response g r \<Rightarrow>
             (if g < length (goroutines s)
              then request_returns C g r (fst (goroutines s ! g)) (snd (goroutines s ! g)) s
              else None)
         | Work w \<Rightarrow>
             (if w < length (workers s) then worker_receives w (workers s ! w) s else None)
         | Scraped w env \<Rightarrow>
             (if w < length (workers s) then worker_scrapes w env (workers s ! w) s else None)
         | Main \<Rightarrow> main_step C (mainpc s) s
         | Tick \<Rightarrow> Some (s\<lparr>clock := clock s + 1\<rparr>)))"

declare step.simps [simp del]

fun run :: "'u config \<Rightarrow> event list \<Rightarrow> state \<Rightarrow> state option" where
  "run C [] s = Some s"
| "run C (e # es) s = (case step C e s of None \<Rightarrow> None | Some s' \<Rightarrow> run C es s')"

text \<open>The states the program can reach from its start.\<close>

definition reachable :: "'u config \<Rightarrow> state \<Rightarrow> bool" where
  "reachable C s = (\<exists>es. run C es (main_start C None) = Some s)"

section \<open>Notions used in the properties\<close>

text \<open>
  A discovery branch is pending while its \<^verbatim>\<open>crawl\<close> has not returned; once it has, the
  goroutine is at \<open>Sleeping\<close>, \<open>Signalling\<close> or \<open>Finished\<close>.
\<close>

definition crawl_over :: "pc \<Rightarrow> bool" where
  "crawl_over p =
     (case p of Sleeping t \<Rightarrow> True | Signalling \<Rightarrow> True | Finished \<Rightarrow> True | _ \<Rightarrow> False)"

definition pending_branches :: "state \<Rightarrow> nat" where
  "pending_branches s = length (filter (\<lambda>g. \<not> crawl_over (snd g)) (goroutines s))"

text \<open>The number of Work Items that workers have received.\<close>

definition popped :: "state \<Rightarrow> nat" where
  "popped s = length (filter (\<lambda>a. case a of Pop w u \<Rightarrow> True | _ \<Rightarrow> False) (history s))"

text \<open>A discovery fetch fails when it returns an error or a status other than 200.\<close>

definition fetch_failed :: "error + response \<Rightarrow> bool" where
  "fetch_failed r = (case r of Inl err \<Rightarrow> True | Inr resp \<Rightarrow> StatusCode resp \<noteq> 200)"

definition fetch_action :: "nat \<Rightarrow> string \<Rightarrow> error + response \<Rightarrow> action" where
  "fetch_action g u r =
     (case r of Inl err \<Rightarrow> FetchError g u | Inr resp \<Rightarrow> Fetched g u (StatusCode resp))"

text \<open>
  \<^verbatim>\<open>makeRequest\<close> fails when the request cannot be created or \<^verbatim>\<open>client.Do\<close> fails; what
  the history and the log show of a request that has returned.
\<close>

definition request_failed :: "'u urllib \<Rightarrow> string \<Rightarrow> error + response \<Rightarrow> bool" where
  "request_failed L u r = (url_Parse L u = None \<or> fetch_failed r)"

definition request_action :: "'u urllib \<Rightarrow> nat \<Rightarrow> string \<Rightarrow> error + response \<Rightarrow> action" where
  "request_action L g u r = (if url_Parse L u = None then FetchError g u else fetch_action g u r)"

definition request_logs :: "'u urllib \<Rightarrow> string \<Rightarrow> log_entry list" where
  "request_logs L u = (if url_Parse L u = None then [FailedToCreateRequest u] else [])"

section \<open>Invariants\<close>

subsection \<open>What the history shows\<close>

text \<open>The URLs admitted and the Work Items pushed so far, newest first.\<close>

fun admitted :: "action list \<Rightarrow> string list" where
  "admitted [] = []"
| "admitted (Admit g u # h) = u # admitted h"
| "admitted (a # h) = admitted h"

fun pushed :: "action list \<Rightarrow> string list" where
  "pushed [] = []"
| "pushed (Push g u # h) = u # pushed h"
| "pushed (a # h) = pushed h"

text \<open>
  Goroutine \<open>g\<close> emits when it pushes a Work Item or follows a link; its fetch fails
  when the request returns an error or a status other than 200.
\<close>

fun emits :: "nat \<Rightarrow> action \<Rightarrow> bool" where
  "emits g (Push g' u) = (g' = g)"
| "emits g (Spawn g' c l) = (g' = g)"
| "emits g a = False"

fun fails :: "nat \<Rightarrow> action \<Rightarrow> bool" where
  "fails g (FetchError g' u) = (g' = g)"
| "fails g (Fetched g' u st) = (g' = g \<and> st \<noteq> 200)"
| "fails g a = False"

text \<open>The actions of the workers and of \<^verbatim>\<open>main\<close>.\<close>

fun bystander :: "action \<Rightarrow> bool" where
  "bystander Close = True"
| "bystander (Pop w u) = True"
| "bystander (ScrapeOk w u) = True"
| "bystander (ScrapeFailed w u) = True"
| "bystander a = False"

text \<open>
  Where a goroutine that tries to admit \<open>u\<close> comes from: it is the seed goroutine
  (index 0), or some goroutine has started it with \<^verbatim>\<open>go crawl(u)\<close>.
\<close>

definition origin :: "nat \<Rightarrow> string \<Rightarrow> action list \<Rightarrow> bool" where
  "origin g u h = (g = 0 \<or> (\<exists>p. Spawn p g u \<in> set h))"

text \<open>What must have happened before an action; a history is in order when this holds
  of each of its actions.\<close>

fun justified :: "action \<Rightarrow> action list \<Rightarrow> bool" where
  "justified (Admit g u) past = origin g u past"
| "justified (Reject g u) past = origin g u past"
| "justified (FetchError g u) past = (Admit g u \<in> set past)"
| "justified (Fetched g u st) past = (Admit g u \<in> set past)"
| "justified (Push g u) past = (Admit g u \<in> set past \<and> Fetched g u 200 \<in> set past)"
| "justified (Spawn p c l) past = (\<exists>u. Push p u \<in> set past)"
| "justified a past = True"

fun in_order :: "action list \<Rightarrow> bool" where
  "in_order [] = True"
| "in_order (a # past) = (justified a past \<and> in_order past)"

definition untouched :: "nat \<Rightarrow> action list \<Rightarrow> bool" where
  "untouched g h = (\<forall>a \<in> set h. \<not> emits g a \<and> \<not> fails g a)"

subsection \<open>The mutex and the admission counter\<close>

text \<open>
  The program points between \<^verbatim>\<open>mu.Lock()\<close> and \<^verbatim>\<open>mu.Unlock()\<close>, and those among them
  where the URL has passed the check but \<^verbatim>\<open>count\<close> does not include it yet.
\<close>

fun holding :: "pc \<Rightarrow> bool" where
  "holding (Checking u) = True"
| "holding (Rejecting u) = True"
| "holding (Marking u) = True"
| "holding (Counting u) = True"
| "holding (Reading u) = True"
| "holding (Unlocking u c) = True"
| "holding p = False"

fun uncounted :: "pc \<Rightarrow> bool" where
  "uncounted (Marking u) = True"
| "uncounted (Counting u) = True"
| "uncounted p = False"

definition count_pcs :: "(pc \<Rightarrow> bool) \<Rightarrow> (bool \<times> pc) list \<Rightarrow> nat" where
  "count_pcs P gs = length (filter (\<lambda>g. P (snd g)) gs)"

text \<open>
  At most one goroutine is between lock and unlock, and exactly when \<^verbatim>\<open>mu\<close> is locked;
  no URL is admitted twice; the admitted URLs are those marked in \<^verbatim>\<open>visited\<close> and the
  one about to be marked; \<^verbatim>\<open>count\<close> is their number, less the one about to be counted;
  and they are no more than \<^verbatim>\<open>maxURLs\<close>.
\<close>

definition admission_inv :: "'u config \<Rightarrow> state \<Rightarrow> bool" where
  "admission_inv C s =
     (count_pcs holding (goroutines s) = (if mu s then 1 else 0)
      \<and> distinct (admitted (history s))
      \<and> (\<forall>u. u \<in> set (admitted (history s)) \<longleftrightarrow>
             is_visited (visited s) u \<or> 0 < count_pcs (\<lambda>p. p = Marking u) (goroutines s))
      \<and> int (length (admitted (history s))) = count s + int (count_pcs uncounted (goroutines s))
      \<and> int (length (admitted (history s))) \<le> max 0 (maxURLs C))"

subsection \<open>Each goroutine and the history\<close>

text \<open>What the history, the map and the counter show of goroutine \<open>g\<close> at each of
  its program points.\<close>

fun local_inv :: "action list \<Rightarrow> (string \<rightharpoonup> bool) \<Rightarrow> int \<Rightarrow> nat \<Rightarrow> pc \<Rightarrow> bool" where
  "local_inv h vis cnt g (Locking u) = (origin g u h \<and> untouched g h)"
| "local_inv h vis cnt g (Checking u) = (origin g u h \<and> untouched g h)"
| "local_inv h vis cnt g (Rejecting u) = untouched g h"
| "local_inv h vis cnt g (Marking u) = (Admit g u \<in> set h \<and> untouched g h)"
| "local_inv h vis cnt g (Counting u) =
     (Admit g u \<in> set h \<and> untouched g h \<and> is_visited vis u)"
| "local_inv h vis cnt g (Reading u) =
     (Admit g u \<in> set h \<and> untouched g h \<and> is_visited vis u \<and> 1 \<le> cnt)"
| "local_inv h vis cnt g (Unlocking u c) =
     (Admit g u \<in> set h \<and> untouched g h \<and> is_visited vis u \<and> 1 \<le> c \<and> c \<le> cnt)"
| "local_inv h vis cnt g (Requesting u c t) =
     (Admit g u \<in> set h \<and> untouched g h \<and> is_visited vis u \<and> 1 \<le> c \<and> c \<le> cnt)"
| "local_inv h vis cnt g (Sending u c b) =
     (Admit g u \<in> set h \<and> Fetched g u 200 \<in> set h \<and> untouched g h
      \<and> is_visited vis u \<and> 1 \<le> c \<and> c \<le> cnt)"
| "local_inv h vis cnt g (Extracting u c b) =
     (Push g u \<in> set h \<and> (\<forall>a \<in> set h. \<not> fails g a))"
| "local_inv h vis cnt g (Looping u c ls) =
     (Push g u \<in> set h \<and> (\<forall>a \<in> set h. \<not> fails g a))"
| "local_inv h vis cnt g p = True"

definition locals ::
  "action list \<Rightarrow> (string \<rightharpoonup> bool) \<Rightarrow> int \<Rightarrow> (bool \<times> pc) list \<Rightarrow> bool" where
  "locals h vis cnt gs = (\<forall>g < length gs. local_inv h vis cnt g (snd (gs ! g)))"

definition history_inv :: "state \<Rightarrow> bool" where
  "history_inv s =
     (locals (history s) (visited s) (count s) (goroutines s)
      \<and> (\<forall>a \<in> set (history s). \<forall>g. emits g a \<or> fails g a \<longrightarrow> g < length (goroutines s))
      \<and> in_order (history s)
      \<and> distinct (pushed (history s))
      \<and> (\<forall>g. (\<exists>a \<in> set (history s). fails g a) \<longrightarrow> (\<forall>a \<in> set (history s). \<not> emits g a))
      \<and> 0 \<le> count s)"

definition crawl_inv :: "'u config \<Rightarrow> state \<Rightarrow> bool" where
  "crawl_inv C s = (admission_inv C s \<and> history_inv s)"

text \<open>Goroutine 0 is the seed goroutine: every goroutine started for a link has a
  later index.\<close>

definition seed_inv :: "state \<Rightarrow> bool" where
  "seed_inv s =
     (goroutines s \<noteq> [] \<and> (\<forall>p c l. Spawn p c l \<in> set (history s) \<longrightarrow> 0 < c))"

subsection \<open>The worklist\<close>

text \<open>The Work Items that workers have received, newest first.\<close>

fun received :: "action list \<Rightarrow> string list" where
  "received [] = []"
| "received (Pop w u # h) = u # received h"
| "received (a # h) = received h"

text \<open>
  The channel is first in, first out: the items pushed, oldest first, are the items
  received followed by the items waiting in the buffer.
\<close>

definition channel_inv :: "state \<Rightarrow> bool" where
  "channel_inv s = (rev (pushed (history s)) = rev (received (history s)) @ worklist s)"

text \<open>
  A goroutine that has a response has a URL that \<^verbatim>\<open>url.Parse\<close> accepts, as
  \<^verbatim>\<open>makeRequest\<close> has parsed it.
\<close>

fun fetched_url :: "pc \<Rightarrow> string option" where
  "fetched_url (Sending u c b) = Some u"
| "fetched_url (Extracting u c b) = Some u"
| "fetched_url p = None"

definition parsed_inv :: "'u config \<Rightarrow> state \<Rightarrow> bool" where
  "parsed_inv C s =
     (\<forall>g < length (goroutines s). \<forall>u. fetched_url (snd (goroutines s ! g)) = Some u
        \<longrightarrow> url_Parse (lib C) u \<noteq> None)"

subsection \<open>The workers and \<^verbatim>\<open>main\<close>\<close>

fun is_scraping :: "worker_pc \<Rightarrow> bool" where
  "is_scraping (Scraping u) = True"
| "is_scraping w = False"

fun is_live :: "worker_pc \<Rightarrow> bool" where
  "is_live WorkerDone = False"
| "is_live w = True"

text \<open>
  The wait group counts the workers still running; every popped item is either being
  scraped or counted in exactly one of \<^verbatim>\<open>successPages\<close> and \<^verbatim>\<open>failedPages\<close>;
  \<^verbatim>\<open>completedPages\<close> equals \<^verbatim>\<open>successPages\<close>; \<^verbatim>\<open>main\<close> is past \<^verbatim>\<open>wg.Wait()\<close> only when
  no worker runs; and the statistics are saved, from the counters, exactly when \<^verbatim>\<open>main\<close>
  has returned.
\<close>

definition stats_inv :: "state \<Rightarrow> bool" where
  "stats_inv s =
     (wg s = int (length (filter is_live (workers s)))
      \<and> successPages s + failedPages s + int (length (filter is_scraping (workers s)))
          = int (popped s)
      \<and> completedPages s = successPages s
      \<and> (mainpc s = SaveStats \<or> mainpc s = Exited \<longrightarrow> wg s = 0)
      \<and> (case stats s of
            None \<Rightarrow> mainpc s \<noteq> Exited
          | Some st \<Rightarrow> mainpc s = Exited \<and> TotalPages st = completedPages s
              \<and> SuccessPages st = successPages s \<and> FailedPages st = failedPages s))"

text \<open>The worklist is closed exactly when \<^verbatim>\<open>main\<close> is past \<^verbatim>\<open>close(worklist)\<close>.\<close>

definition close_inv :: "state \<Rightarrow> bool" where
  "close_inv s =
     ((closed s \<longleftrightarrow> mainpc s = WaitWorkers \<or> mainpc s = SaveStats \<or> mainpc s = Exited)
      \<and> count_list (history s) Close = (if closed s then 1 else 0))"

section \<open>Sample sites and schedules\<close>

text \<open>
  A URL library for sites whose links are absolute and well formed: every string parses,
  and resolving an absolute reference against any base gives the reference.
\<close>

definition absolute_lib :: "string urllib" where
  "absolute_lib =
     \<lparr>url_Parse = Some, URL_Parse = (\<lambda>base ref. Inr (Some ref)), URL_String = (\<lambda>u. u)\<rparr>"

definition link_to :: "string \<Rightarrow> token" where
  "link_to href =
     \<lparr>Type = StartTagToken, Data = ''a'', Attr = [\<lparr>Key = ''href'', Val = href\<rparr>]\<rparr>"

definition page :: "string list \<Rightarrow> response" where
  "page hrefs = \<lparr>StatusCode = 200, Body = map link_to hrefs\<rparr>"

text \<open>Goroutine \<open>g\<close> takes the lock, passes the check and starts its request.\<close>

definition admit_and_request :: "nat \<Rightarrow> event list" where
  "admit_and_request g = [Go g, Go g, Go g, Go g, Go g, Go g]"

text \<open>
  The seed page answers at once and links to one page; that page answers after six
  seconds, within the ten seconds of the client's timeout. Meanwhile the seed goroutine
  has slept its five seconds and signalled, and \<^verbatim>\<open>main\<close> has closed the worklist.
\<close>

definition slow_child_schedule :: "event list" where
  "slow_child_schedule =
     admit_and_request 0
     @ [Response 0 (Inr (page [''http://books.toscrape.com/slow''])), Go 0, Go 0, Go 0, Go 0]
     @ admit_and_request 1
     @ [Tick, Tick, Tick, Tick, Tick, Tick, Go 0, Go 0, Main, Response 1 (Inr (page []))]"

text \<open>
  The seed page has no links; worker 0 receives it and its request fails. Then the seed
  goroutine signals, \<^verbatim>\<open>main\<close> closes the worklist, the five workers end and \<^verbatim>\<open>main\<close>
  saves the statistics.
\<close>

definition request_fails :: scrape_env where
  "request_fails =
     \<lparr>request_error = Some (Error ''timeout''), parse_error = None, save_error = None\<rparr>"

definition failed_scrape_schedule :: "event list" where
  "failed_scrape_schedule =
     admit_and_request 0
     @ [Response 0 (Inr (page [])), Go 0, Go 0, Go 0, Work 0, Scraped 0 request_fails,
        Tick, Tick, Tick, Tick, Tick, Go 0, Go 0, Main,
        Work 0, Work 1, Work 2, Work 3, Work 4, Main, Main]"

text \<open>A state in which worker 0 is scraping one item and another item is queued.\<close>

definition one_scraping :: state where
  "one_scraping =
     empty_state\<lparr>workers := [Scraping ''http://a/1''], wg := 1, worklist := [''http://a/2'']\<rparr>"

text \<open>
  A site of three pages crawled with \<^verbatim>\<open>maxURLs = 2\<close>: the seed links to \<^verbatim>\<open>b\<close> and
  \<^verbatim>\<open>c\<close>. Both links are followed; \<^verbatim>\<open>b\<close> is admitted first and its fetch answers 500;
  then \<^verbatim>\<open>c\<close> is rejected, the cap being reached.
\<close>

definition capped_config :: "string config" where
  "capped_config = \<lparr>lib = absolute_lib, seedURL = ''http://a/'', maxURLs = 2, numWorkers = 5\<rparr>"

definition capped_prefix :: "event list" where
  "capped_prefix =
     admit_and_request 0
     @ [Response 0 (Inr (page [''http://a/b'', ''http://a/c''])), Go 0, Go 0, Go 0, Go 0, Go 0]
     @ admit_and_request 1"

definition capped_schedule :: "event list" where
  "capped_schedule =
     capped_prefix @ [Response 1 (Inr \<lparr>StatusCode = 500, Body = []\<rparr>), Go 2, Go 2, Go 2]"

definition capped_requesting :: state where
  "capped_requesting = the (run capped_config capped_prefix (main_start capped_config None))"

definition capped_final :: state where
  "capped_final = the (run capped_config capped_schedule (main_start capped_config None))"

subsection \<open>A reduced \<^verbatim>\<open>net/url\<close>\<close>

text \<open>
  A small model of \<^verbatim>\<open>net/url\<close> for sample inputs that do not parse or are relative. A URL
  is its scheme and the rest of the string. \<open>getScheme\<close> is \<^verbatim>\<open>getScheme\<close> of
  \<^verbatim>\<open>net/url\<close>: it fails on a string that starts with a colon (missing protocol scheme).
  Parsing also fails, as in \<^verbatim>\<open>net/url\<close>, when a scheme-less relative path has a colon in
  its first segment. What \<^verbatim>\<open>net/url\<close> does beyond that is left out: the rest is not
  split into authority, path, query and fragment, nothing is unescaped or validated (so
  strings that \<^verbatim>\<open>net/url\<close> rejects for a control character, an escape or a port are
  accepted here), and dot segments are not removed when a reference is resolved. It is
  used below on the strings \<^verbatim>\<open>:\<close>, \<^verbatim>\<open>/x\<close>, \<^verbatim>\<open>y\<close>, \<^verbatim>\<open>http://a/b/c\<close> and
  \<^verbatim>\<open>http://c/d\<close> only, where none of this matters.
\<close>

record sample_url =
  Scheme :: string
  Rest :: string

definition letters :: string where
  "letters = ''abcdefghijklmnopqrstuvwxyzABCDEFGHIJKLMNOPQRSTUVWXYZ''"

definition digits_and_marks :: string where
  "digits_and_marks = ''0123456789+-.''"

fun getScheme_scan :: "string \<Rightarrow> string \<Rightarrow> string \<Rightarrow> (string \<times> string) option" where
  "getScheme_scan raw seen [] = Some ('''', raw)"
| "getScheme_scan raw seen (c # cs) =
     (if c \<in> set letters then getScheme_scan raw (seen @ [c]) cs
      else if c \<in> set digits_and_marks
      then (if seen = [] then Some ('''', raw) else getScheme_scan raw (seen @ [c]) cs)
      else if c = CHR '':'' then (if seen = [] then None else Some (seen, cs))
      else Some ('''', raw))"

definition getScheme :: "string \<Rightarrow> (string \<times> string) option" where
  "getScheme raw = getScheme_scan raw [] raw"

definition lower_case :: "char \<Rightarrow> char" where
  "lower_case c =
     (case map_of (zip ''ABCDEFGHIJKLMNOPQRSTUVWXYZ'' ''abcdefghijklmnopqrstuvwxyz'') c of
        None \<Rightarrow> c | Some l \<Rightarrow> l)"

definition sample_Parse :: "string \<Rightarrow> sample_url option" where
  "sample_Parse raw =
     (case getScheme raw of
        None \<Rightarrow> None
      | Some (scheme, rest) \<Rightarrow>
          (if scheme = '''' \<and> take 1 rest \<noteq> ''/''
              \<and> CHR '':'' \<in> set (takeWhile (\<lambda>c. c \<noteq> CHR ''/'' \<and> c \<noteq> CHR ''?''
                                                 \<and> c \<noteq> CHR ''#'') rest)
           then None
           else Some \<lparr>Scheme = map lower_case scheme, Rest = rest\<rparr>))"

text \<open>
  \<^verbatim>\<open>ResolveReference\<close> on a receiver that is not \<^verbatim>\<open>nil\<close>: a reference with a scheme is
  the result; one that starts with \<^verbatim>\<open>//\<close> takes the scheme of the base; an absolute path
  replaces the path of the base; a relative path is appended to the directory of the
  path of the base.
\<close>

definition authority_of :: "string \<Rightarrow> string" where
  "authority_of rest =
     (if take 2 rest = ''//'' then ''//'' @ takeWhile (\<lambda>c. c \<noteq> CHR ''/'') (drop 2 rest)
      else '''')"

definition resolvePath :: "string \<Rightarrow> string \<Rightarrow> string" where
  "resolvePath base ref =
     (let full = (if ref = '''' then base
                  else if take 1 ref \<noteq> ''/''
                  then rev (dropWhile (\<lambda>c. c \<noteq> CHR ''/'') (rev base)) @ ref
                  else ref)
      in if full = '''' then '''' else if take 1 full = ''/'' then full else ''/'' @ full)"

definition sample_resolve :: "sample_url \<Rightarrow> sample_url \<Rightarrow> sample_url" where
  "sample_resolve b r =
     (if Scheme r \<noteq> '''' then r
      else if take 2 (Rest r) = ''//'' then \<lparr>Scheme = Scheme b, Rest = Rest r\<rparr>
      else \<lparr>Scheme = Scheme b,
            Rest = authority_of (Rest b)
                   @ resolvePath (drop (length (authority_of (Rest b))) (Rest b)) (Rest r)\<rparr>)"

text \<open>
  The method \<^verbatim>\<open>(*URL).Parse\<close>: it parses the reference, returns the error if there is
  one, and resolves. On a \<^verbatim>\<open>nil\<close> receiver \<^verbatim>\<open>ResolveReference\<close> reads the scheme of the
  receiver when the reference has none, a nil pointer dereference; a reference with a
  scheme is returned without the receiver being read.
\<close>

definition sample_URL_Parse :: "sample_url option \<Rightarrow> string \<Rightarrow> panic + sample_url option" where
  "sample_URL_Parse base ref =
     (case sample_Parse ref of
        None \<Rightarrow> Inr None
      | Some r \<Rightarrow>
          (case base of
             None \<Rightarrow> (if Scheme r = '''' then Inl NilPointerDereference else Inr (Some r))
           | Some b \<Rightarrow> Inr (Some (sample_resolve b r))))"

definition sample_String :: "sample_url \<Rightarrow> string" where
  "sample_String u = (if Scheme u = '''' then Rest u else Scheme u @ '':'' @ Rest u)"

definition scheme_lib :: "sample_url urllib" where
  "scheme_lib =
     \<lparr>url_Parse = sample_Parse, URL_Parse = sample_URL_Parse, URL_String = sample_String\<rparr>"

subsection \<open>More sample runs\<close>

text \<open>
  \<^verbatim>\<open>discoverURLs\<close> started on a seed that does not parse: the seed is admitted and its
  request cannot be created (the answer of \<^verbatim>\<open>client.Do\<close> is never asked for).
\<close>

definition colon_seed_config :: "sample_url config" where
  "colon_seed_config = \<lparr>lib = scheme_lib, seedURL = '':'', maxURLs = 100, numWorkers = 5\<rparr>"

definition colon_seed_requested :: state where
  "colon_seed_requested =
     the (run colon_seed_config (admit_and_request 0) (main_start colon_seed_config None))"

definition colon_seed_schedule :: "event list" where
  "colon_seed_schedule = admit_and_request 0 @ [Response 0 (Inl (Error ''not sent''))]"





text \<open>
  The seed goroutine of \<^verbatim>\<open>main\<close>'s configuration at \<^verbatim>\<open>worklist <- url\<close>, its fetch
  having returned 200, and one step later at \<^verbatim>\<open>extractLinks\<close>.
\<close>

definition seed_sending :: state where
  "seed_sending =
     the (run (main_config absolute_lib)
            (admit_and_request 0
             @ [Response 0 (Inr (page [''http://books.toscrape.com/slow'']))])
            (main_start (main_config absolute_lib) None))"

definition seed_extracting :: state where
  "seed_extracting =
     the (run (main_config absolute_lib)
            (admit_and_request 0
             @ [Response 0 (Inr (page [''http://books.toscrape.com/slow''])), Go 0])
            (main_start (main_config absolute_lib) None))"

section \<open>Evaluation\<close>

lemmas run_defs =
  main_config_def main_start_def discoverURLs_def start_workers.simps empty_state_def
  step.simps at_pc_def record_action_def panic_with_def is_visited_def crawl_returns_def
  sleep_seconds_def client_timeout_def worklist_capacity_def extractLinks_def
  absolute_lib_def link_to_def page_def admit_and_request_def
  scrapeURLFromWorklist_def wrap_error_def makeRequest_def

lemmas sample_defs =
  scheme_lib_def sample_Parse_def sample_URL_Parse_def sample_String_def sample_resolve_def
  getScheme_def letters_def digits_and_marks_def lower_case_def authority_of_def
  resolvePath_def

section \<open>Steps and runs\<close>

text \<open>Every step of a discovery goroutine, by program point.\<close>

lemma Go_cases [consumes 1, case_names Lock Reject Admit_ RejectReturn Mark Count Read Unlock SendClosed Send ExtractPanic Extract LoopEnd Spawn_ Skip_ Wake Signal]:
  assumes "step C (Go g) s = Some s'"
  obtains
    (Lock) sd u where "g < length (goroutines s)" "goroutines s ! g = (sd, Locking u)" "\<not> mu s"
      "s' = s\<lparr>mu := True, goroutines := (goroutines s)[g := (sd, Checking u)]\<rparr>"
  | (Reject) sd u where "g < length (goroutines s)" "goroutines s ! g = (sd, Checking u)"
      "is_visited (visited s) u \<or> maxURLs C \<le> count s"
      "s' = s\<lparr>goroutines := (goroutines s)[g := (sd, Rejecting u)],
               history := Reject g u # history s\<rparr>"
  | (Admit_) sd u where "g < length (goroutines s)" "goroutines s ! g = (sd, Checking u)"
      "\<not> is_visited (visited s) u" "count s < maxURLs C"
      "s' = s\<lparr>goroutines := (goroutines s)[g := (sd, Marking u)],
               history := Admit g u # history s\<rparr>"
  | (RejectReturn) sd u where "g < length (goroutines s)" "goroutines s ! g = (sd, Rejecting u)"
      "s' = s\<lparr>mu := False,
               goroutines := (goroutines s)[g := (sd, crawl_returns sd (clock s))]\<rparr>"
  | (Mark) sd u where "g < length (goroutines s)" "goroutines s ! g = (sd, Marking u)"
      "s' = s\<lparr>visited := (visited s)(u \<mapsto> True),
               goroutines := (goroutines s)[g := (sd, Counting u)]\<rparr>"
  | (Count) sd u where "g < length (goroutines s)" "goroutines s ! g = (sd, Counting u)"
      "s' = s\<lparr>count := count s + 1, goroutines := (goroutines s)[g := (sd, Reading u)]\<rparr>"
  | (Read) sd u where "g < length (goroutines s)" "goroutines s ! g = (sd, Reading u)"
      "s' = s\<lparr>goroutines := (goroutines s)[g := (sd, Unlocking u (count s))]\<rparr>"
  | (Unlock) sd u c where "g < length (goroutines s)" "goroutines s ! g = (sd, Unlocking u c)"
      "s' = s\<lparr>mu := False,
               goroutines := (goroutines s)[g := (sd, Requesting u c (clock s))]\<rparr>"
  | (SendClosed) sd u c b where "g < length (goroutines s)"
      "goroutines s ! g = (sd, Sending u c b)" "closed s"
      "s' = s\<lparr>panicked := Some SendOnClosedChannel\<rparr>"
  | (Send) sd u c b where "g < length (goroutines s)" "goroutines s ! g = (sd, Sending u c b)"
      "\<not> closed s" "length (worklist s) < worklist_capacity"
      "s' = s\<lparr>worklist := worklist s @ [u],
               goroutines := (goroutines s)[g := (sd, Extracting u c b)],
               history := Push g u # history s\<rparr>"
  | (ExtractPanic) sd u c b p where "g < length (goroutines s)"
      "goroutines s ! g = (sd, Extracting u c b)" "extractLinks (lib C) b u = Inl p"
      "s' = s\<lparr>panicked := Some p\<rparr>"
  | (Extract) sd u c b links where "g < length (goroutines s)"
      "goroutines s ! g = (sd, Extracting u c b)" "extractLinks (lib C) b u = Inr links"
      "s' = s\<lparr>goroutines := (goroutines s)[g := (sd, Looping u c links)]\<rparr>"
  | (LoopEnd) sd u c where "g < length (goroutines s)" "goroutines s ! g = (sd, Looping u c [])"
      "s' = s\<lparr>goroutines := (goroutines s)[g := (sd, crawl_returns sd (clock s))]\<rparr>"
  | (Spawn_) sd u c link links where "g < length (goroutines s)"
      "goroutines s ! g = (sd, Looping u c (link # links))" "c < maxURLs C"
      "s' = s\<lparr>goroutines := (goroutines s)[g := (sd, Looping u c links)] @ [(False, Locking link)],
               history := Spawn g (length (goroutines s)) link # history s\<rparr>"
  | (Skip_) sd u c link links where "g < length (goroutines s)"
      "goroutines s ! g = (sd, Looping u c (link # links))" "maxURLs C \<le> c"
      "s' = s\<lparr>goroutines := (goroutines s)[g := (sd, Looping u c links)],
               history := Skip g link # history s\<rparr>"
  | (Wake) sd t where "g < length (goroutines s)" "goroutines s ! g = (sd, Sleeping t)"
      "t \<le> clock s"
      "s' = s\<lparr>goroutines := (goroutines s)[g := (sd, Signalling)]\<rparr>"
  | (Signal) sd where "g < length (goroutines s)" "goroutines s ! g = (sd, Signalling)"
      "mainpc s = AwaitDone"
      "s' = s\<lparr>mainpc := CloseWorklist, goroutines := (goroutines s)[g := (sd, Finished)],
               history := SignalDone # history s\<rparr>"
proof -
  obtain sd p where gp: "goroutines s ! g = (sd, p)" by (cases "goroutines s ! g")
  from assms have g: "g < length (goroutines s)" and cs: "crawl_step C g sd p s = Some s'"
    by (auto simp: step.simps gp split: if_splits)
  show ?thesis
  proof (cases p)
    case (Locking u)
    with cs g gp Lock show ?thesis by (auto simp: at_pc_def split: if_splits)
  next
    case (Checking u)
    with cs g gp Reject [of sd u] Admit_ [of sd u] show ?thesis
      by (auto simp: at_pc_def record_action_def split: if_splits)
  next
    case (Rejecting u)
    with cs g gp RejectReturn show ?thesis by (auto simp: at_pc_def)
  next
    case (Marking u)
    with cs g gp Mark show ?thesis by (auto simp: at_pc_def)
  next
    case (Counting u)
    with cs g gp Count show ?thesis by (auto simp: at_pc_def)
  next
    case (Reading u)
    with cs g gp Read show ?thesis by (auto simp: at_pc_def)
  next
    case (Unlocking u c)
    with cs g gp Unlock show ?thesis by (auto simp: at_pc_def)
  next
    case (Requesting u c t)
    with cs show ?thesis by simp
  next
    case (Sending u c b)
    with cs g gp SendClosed [of sd u c b] Send [of sd u c b] show ?thesis
      by (auto simp: at_pc_def record_action_def panic_with_def split: if_splits)
  next
    case (Extracting u c b)
    with cs g gp ExtractPanic [of sd u c b] Extract [of sd u c b] show ?thesis
      by (auto simp: at_pc_def panic_with_def split: sum.splits)
  next
    case (Looping u c ls)
    show ?thesis
    proof (cases ls)
      case Nil
      with Looping cs g gp LoopEnd show ?thesis by (auto simp: at_pc_def)
    next
      case (Cons link links)
      with Looping cs g gp Spawn_ [of sd u c link links] Skip_ [of sd u c link links] show ?thesis
        by (auto simp: at_pc_def record_action_def split: if_splits)
    qed
  next
    case (Sleeping t)
    with cs g gp Wake show ?thesis by (auto simp: at_pc_def split: if_splits)
  next
    case Signalling
    with cs g gp Signal show ?thesis by (auto simp: at_pc_def record_action_def split: if_splits)
  next
    case Finished
    with cs show ?thesis by simp
  qed
qed

text \<open>The three ways a discovery request returns.\<close>

lemma Response_cases [consumes 1, case_names CreateFails FetchError FetchStatus FetchOk]:
  assumes "step C (Response g r) s = Some s'"
  obtains
    (CreateFails) sd u c t0 where "g < length (goroutines s)"
      "goroutines s ! g = (sd, Requesting u c t0)" "url_Parse (lib C) u = None"
      "s' = s\<lparr>goroutines := (goroutines s)[g := (sd, crawl_returns sd (clock s))],
               logged := logged s @ [FailedToCreateRequest u],
               history := FetchError g u # history s\<rparr>"
  | (FetchError) sd u c t0 err where "g < length (goroutines s)"
      "goroutines s ! g = (sd, Requesting u c t0)" "url_Parse (lib C) u \<noteq> None" "r = Inl err"
      "s' = s\<lparr>goroutines := (goroutines s)[g := (sd, crawl_returns sd (clock s))],
               history := FetchError g u # history s\<rparr>"
  | (FetchStatus) sd u c t0 resp where "g < length (goroutines s)"
      "goroutines s ! g = (sd, Requesting u c t0)" "url_Parse (lib C) u \<noteq> None"
      "r = Inr resp" "StatusCode resp \<noteq> 200"
      "s' = s\<lparr>goroutines := (goroutines s)[g := (sd, crawl_returns sd (clock s))],
               history := Fetched g u (StatusCode resp) # history s\<rparr>"
  | (FetchOk) sd u c t0 resp where "g < length (goroutines s)"
      "goroutines s ! g = (sd, Requesting u c t0)" "url_Parse (lib C) u \<noteq> None"
      "r = Inr resp" "StatusCode resp = 200"
      "s' = s\<lparr>goroutines := (goroutines s)[g := (sd, Sending u c (Body resp))],
               history := Fetched g u 200 # history s\<rparr>"
proof -
  obtain sd p where gp: "goroutines s ! g = (sd, p)" by (cases "goroutines s ! g")
  from assms have g: "g < length (goroutines s)"
    and cs: "request_returns C g r sd p s = Some s'"
    by (auto simp: step.simps gp split: if_splits)
  from cs obtain u c t0 where p: "p = Requesting u c t0" by (cases p) auto
  show ?thesis
  proof (cases "url_Parse (lib C) u")
    case None
    with cs g gp p CreateFails [of sd u c t0] show ?thesis
      by (auto simp: makeRequest_def at_pc_def record_action_def)
  next
    case (Some parsed)
    show ?thesis
    proof (cases r)
      case (Inl err)
      with Some cs g gp p FetchError [of sd u c t0 err] show ?thesis
        by (auto simp: makeRequest_def at_pc_def record_action_def)
    next
      case (Inr resp)
      with Some cs g gp p FetchStatus [of sd u c t0 resp] FetchOk [of sd u c t0 resp]
      show ?thesis
        by (auto simp: makeRequest_def at_pc_def record_action_def split: if_splits)
    qed
  qed
qed

text \<open>
  Every other step (a worker, \<^verbatim>\<open>main\<close>, the clock) leaves the goroutines, the map, the
  counter and the mutex alone and adds only actions of workers and \<^verbatim>\<open>main\<close>.
\<close>

lemma Other_cases [consumes 1, case_names Go Response Other]:
  assumes "step C e s = Some s'"
  obtains
    (Go) g where "e = Go g"
  | (Response) g r where "e = Response g r"
  | (Other) acts where "history s' = acts @ history s" "\<forall>a \<in> set acts. bystander a"
      "goroutines s' = goroutines s" "visited s' = visited s" "count s' = count s"
      "mu s' = mu s"
proof (cases e)
  case (Go g) then show ?thesis using that(1) by blast
next
  case (Response g r) then show ?thesis using that(2) by blast
next
  case (Work w)
  with assms have "worker_receives w (workers s ! w) s = Some s'"
    by (auto simp: step.simps split: if_splits)
  then show ?thesis
    using that(3) [of "[]"] that(3) [of "[Pop w (hd (worklist s))]"]
    by (cases "workers s ! w") (auto simp: record_action_def split: list.splits if_splits)
next
  case (Scraped w env)
  with assms have ws: "worker_scrapes w env (workers s ! w) s = Some s'"
    by (auto simp: step.simps split: if_splits)
  then obtain url where "workers s ! w = Scraping url" by (cases "workers s ! w") auto
  with ws show ?thesis
    using that(3) [of "[ScrapeOk w url]"] that(3) [of "[ScrapeFailed w url]"]
    by (auto simp: record_action_def scrapeURLFromWorklist_def split: option.splits)
next
  case Main
  with assms have "main_step C (mainpc s) s = Some s'"
    by (auto simp: step.simps split: if_splits)
  then show ?thesis
    using that(3) [of "[]"] that(3) [of "[Close]"]
    by (cases "mainpc s") (auto simp: record_action_def panic_with_def split: if_splits)
next
  case Tick
  with assms show ?thesis
    using that(3) [of "[]"] by (auto simp: step.simps split: if_splits)
qed

lemma run_invariant:
  assumes "run C es s = Some s'" and "P s"
    and "\<And>e s s'. step C e s = Some s' \<Longrightarrow> P s \<Longrightarrow> P s'"
  shows "P s'"
  using assms(1,2)
proof (induction es arbitrary: s)
  case Nil
  then show ?case by simp
next
  case (Cons e es)
  then show ?case by (auto split: option.splits dest: assms(3))
qed

lemma run_append:
  "run C (es @ es') s = (case run C es s of None \<Rightarrow> None | Some s' \<Rightarrow> run C es' s')"
  by (induction es arbitrary: s) (auto split: option.splits)

lemma reachable_run:
  assumes "reachable C s" and "run C es s = Some s'"
  shows "reachable C s'"
proof -
  from assms(1) obtain es0 where "run C es0 (main_start C None) = Some s"
    by (auto simp: reachable_def)
  with assms(2) have "run C (es0 @ es) (main_start C None) = Some s'"
    by (simp add: run_append)
  then show ?thesis unfolding reachable_def by blast
qed

lemma reachable_the_run:
  "run C es (main_start C None) \<noteq> None \<Longrightarrow> reachable C (the (run C es (main_start C None)))"
  by (auto simp: reachable_def)

lemma history_step:
  assumes "step C e s = Some s'"
  shows "\<exists>acts. history s' = acts @ history s"
  using assms
proof (cases rule: Other_cases)
  case (Go g)
  with assms have "step C (Go g) s = Some s'" by simp
  then show ?thesis by (cases rule: Go_cases) simp_all
next
  case (Response g r)
  with assms have "step C (Response g r) s = Some s'" by simp
  then show ?thesis by (cases rule: Response_cases) simp_all
next
  case (Other acts)
  then show ?thesis by blast
qed

lemma history_run:
  "run C es s = Some s' \<Longrightarrow> \<exists>acts. history s' = acts @ history s"
proof (induction es arbitrary: s)
  case Nil
  then show ?case by simp
next
  case (Cons e es)
  then obtain s1 where 1: "step C e s = Some s1" and 2: "run C es s1 = Some s'"
    by (auto split: option.splits)
  from history_step [OF 1] Cons.IH [OF 2] show ?case by auto
qed

lemma start_workers_eq:
  "start_workers i n s =
     s\<lparr>wg := wg s + max 0 (n - i), workers := workers s @ replicate (nat (n - i)) Receiving\<rparr>"
proof (induction i n s rule: start_workers.induct)
  case (1 i n s)
  show ?case
  proof (cases "i < n")
    case True
    then have "nat (n - i) = Suc (nat (n - (i + 1)))" by simp
    with True 1 show ?thesis
      by (subst start_workers.simps) (simp add: replicate_app_Cons_same)
  next
    case False
    then show ?thesis by (subst start_workers.simps) simp
  qed
qed

lemma start_workers_goroutines [simp]:
  "history (start_workers i n s) = history s"
  "visited (start_workers i n s) = visited s"
  "count (start_workers i n s) = count s"
  by (induction i n s rule: start_workers.induct; subst start_workers.simps; simp)+

section \<open>The admission invariant\<close>

lemma count_pcs_pos:
  "g < length gs \<Longrightarrow> P (snd (gs ! g)) \<Longrightarrow> 0 < count_pcs P gs"
  using nth_mem [of g gs] by (fastforce simp: count_pcs_def filter_empty_conv)

lemma count_pcs_update:
  "g < length gs \<Longrightarrow>
   count_pcs P (gs[g := x]) =
     count_pcs P gs - (if P (snd (gs ! g)) then 1 else 0) + (if P (snd x) then 1 else 0)"
proof (induction gs arbitrary: g)
  case Nil
  then show ?case by simp
next
  case (Cons a gs)
  then show ?case
  proof (cases g)
    case 0
    then show ?thesis by (simp add: count_pcs_def)
  next
    case (Suc k)
    with Cons.prems have k: "k < length gs" by simp
    have pos: "P (snd (gs ! k)) \<Longrightarrow> 0 < count_pcs P gs"
      using k by (rule count_pcs_pos)
    from Cons.IH [OF k] Suc pos show ?thesis
      by (auto simp: count_pcs_def)
  qed
qed

lemma count_pcs_append [simp]:
  "count_pcs P (gs @ [x]) = count_pcs P gs + (if P (snd x) then 1 else 0)"
  by (simp add: count_pcs_def)

lemma count_pcs_less:
  assumes "g < length gs" and "Q (snd (gs ! g))" and "\<not> P (snd (gs ! g))"
    and "\<And>p. P p \<Longrightarrow> Q p"
  shows "count_pcs P gs < count_pcs Q gs"
  using assms(1-3)
proof (induction gs arbitrary: g)
  case Nil
  then show ?case by simp
next
  case (Cons a gs)
  have le: "count_pcs P gs \<le> count_pcs Q gs"
    unfolding count_pcs_def
    by (induction gs) (auto dest: assms(4))
  show ?case
  proof (cases g)
    case 0
    with Cons.prems le show ?thesis by (auto simp: count_pcs_def)
  next
    case (Suc k)
    with Cons.prems Cons.IH [of k] show ?thesis
      by (auto simp: count_pcs_def dest: assms(4))
  qed
qed

lemma is_visited_update [simp]:
  "is_visited (m(u \<mapsto> True)) v = (v = u \<or> is_visited m v)"
  by (simp add: is_visited_def)

lemma crawl_returns_simps [simp]:
  "\<not> holding (crawl_returns sd t)" "\<not> uncounted (crawl_returns sd t)"
  "crawl_returns sd t \<noteq> Marking u"
  by (simp_all add: crawl_returns_def)

lemma admitted_bystander:
  "\<forall>a \<in> set acts. bystander a \<Longrightarrow> admitted (acts @ h) = admitted h"
proof (induction acts)
  case Nil
  show ?case by simp
next
  case (Cons a acts)
  then show ?case by (cases a) auto
qed

lemma uncounted_none:
  assumes "g < length gs" and "holding (snd (gs ! g))" and "\<not> uncounted (snd (gs ! g))"
    and "count_pcs holding gs = (if m then 1 else 0)"
  shows "count_pcs uncounted gs = 0" and "count_pcs (\<lambda>p. p = Marking u) gs = 0"
proof -
  have "uncounted p \<Longrightarrow> holding p" for p by (cases p) auto
  from count_pcs_less [of g gs holding uncounted, OF assms(1-3) this] assms(4)
  show 1: "count_pcs uncounted gs = 0" by (auto split: if_splits)
  have "count_pcs (\<lambda>p. p = Marking u) gs \<le> count_pcs uncounted gs"
    unfolding count_pcs_def by (induction gs) auto
  with 1 show "count_pcs (\<lambda>p. p = Marking u) gs = 0" by simp
qed

lemma admission_inv_Go:
  assumes "step C (Go g) s = Some s'" and "admission_inv C s"
  shows "admission_inv C s'"
proof -
  note pos = count_pcs_pos [of g "goroutines s"]
  from assms(2) have hold: "count_pcs holding (goroutines s) = (if mu s then 1 else 0)"
    by (simp add: admission_inv_def)
  from assms(1) show ?thesis
  proof (cases rule: Go_cases)
    case (Lock sd u)
    with assms(2) show ?thesis by (auto simp: admission_inv_def count_pcs_update)
  next
    case (Reject sd u)
    with assms(2) pos [of holding] show ?thesis
      by (auto simp: admission_inv_def count_pcs_update split: if_splits)
  next
    case (Admit_ sd u)
    note none = uncounted_none [of g "goroutines s" "mu s", OF Admit_(1) _ _ hold]
    from none(1) none(2) [of u] Admit_ assms(2) pos [of holding] show ?thesis
      by (auto simp: admission_inv_def count_pcs_update split: if_splits)
  next
    case (RejectReturn sd u)
    with assms(2) pos [of holding] show ?thesis
      by (auto simp: admission_inv_def count_pcs_update split: if_splits)
  next
    case (Mark sd u)
    with assms(2) pos [of "\<lambda>p. p = Marking u"] pos [of holding] pos [of uncounted]
    show ?thesis
      by (auto simp: admission_inv_def count_pcs_update split: if_splits)
  next
    case (Count sd u)
    with assms(2) pos [of uncounted] pos [of holding] show ?thesis
      by (auto simp: admission_inv_def count_pcs_update split: if_splits)
  next
    case (Read sd u)
    with assms(2) pos [of holding] show ?thesis
      by (auto simp: admission_inv_def count_pcs_update split: if_splits)
  next
    case (Unlock sd u c)
    with assms(2) pos [of holding] show ?thesis
      by (auto simp: admission_inv_def count_pcs_update split: if_splits)
  next
    case (SendClosed sd u c b)
    with assms(2) show ?thesis by (auto simp: admission_inv_def)
  next
    case (Send sd u c b)
    with assms(2) show ?thesis by (auto simp: admission_inv_def count_pcs_update)
  next
    case (ExtractPanic sd u c b p)
    with assms(2) show ?thesis by (auto simp: admission_inv_def)
  next
    case (Extract sd u c b links)
    with assms(2) show ?thesis by (auto simp: admission_inv_def count_pcs_update)
  next
    case (LoopEnd sd u c)
    with assms(2) show ?thesis by (auto simp: admission_inv_def count_pcs_update)
  next
    case (Spawn_ sd u c link links)
    with assms(2) show ?thesis by (auto simp: admission_inv_def count_pcs_update)
  next
    case (Skip_ sd u c link links)
    with assms(2) show ?thesis by (auto simp: admission_inv_def count_pcs_update)
  next
    case (Wake sd t)
    with assms(2) show ?thesis by (auto simp: admission_inv_def count_pcs_update)
  next
    case (Signal sd)
    with assms(2) show ?thesis by (auto simp: admission_inv_def count_pcs_update)
  qed
qed

lemma admission_inv_step:
  assumes "step C e s = Some s'" and "admission_inv C s"
  shows "admission_inv C s'"
  using assms(1)
proof (cases rule: Other_cases)
  case (Go g)
  with assms show ?thesis by (auto intro: admission_inv_Go)
next
  case (Response g r)
  with assms(1) have "step C (Response g r) s = Some s'" by simp
  then show ?thesis
    using assms(2)
    by (cases rule: Response_cases) (auto simp: admission_inv_def count_pcs_update)
next
  case (Other acts)
  with assms(2) show ?thesis by (simp add: admission_inv_def admitted_bystander)
qed

lemma admission_inv_start: "admission_inv C (main_start C None)"
  by (simp add: admission_inv_def main_start_def discoverURLs_def empty_state_def
      count_pcs_def is_visited_def)

lemma reachable_admission_inv: "reachable C s \<Longrightarrow> admission_inv C s"
  unfolding reachable_def
  by (blast intro: run_invariant [where P = "admission_inv C"] admission_inv_start admission_inv_step)

lemma visited_step:
  assumes "step C e s = Some s'" and "is_visited (visited s) u"
  shows "is_visited (visited s') u"
  using assms(1)
proof (cases rule: Other_cases)
  case (Go g)
  with assms(1) have "step C (Go g) s = Some s'" by simp
  then show ?thesis using assms(2) by (cases rule: Go_cases) auto
next
  case (Response g r)
  with assms(1) have "step C (Response g r) s = Some s'" by simp
  then show ?thesis using assms(2) by (cases rule: Response_cases) auto
next
  case (Other acts)
  with assms(2) show ?thesis by simp
qed

lemma visited_run:
  "run C es s = Some s' \<Longrightarrow> is_visited (visited s) u \<Longrightarrow> is_visited (visited s') u"
  by (rule run_invariant [where P = "\<lambda>s. is_visited (visited s) u"]) (auto intro: visited_step)

lemma distinct_count_list: "distinct xs \<Longrightarrow> count_list xs x \<le> 1"
  by (induction xs) auto

section \<open>The history invariant\<close>

lemma origin_mono: "origin g u h \<Longrightarrow> origin g u (acts @ h)"
  by (auto simp: origin_def)

lemma local_inv_mono:
  assumes "local_inv h vis cnt g p"
    and "\<forall>a \<in> set acts. \<not> emits g a \<and> \<not> fails g a"
    and "\<And>u. is_visited vis u \<Longrightarrow> is_visited vis' u"
    and "cnt \<le> cnt'"
  shows "local_inv (acts @ h) vis' cnt' g p"
  using assms by (cases p) (auto simp: untouched_def origin_def)

lemma locals_update:
  assumes "locals h vis cnt gs" and "g < length gs"
    and "local_inv (acts @ h) vis' cnt' g (snd x)"
    and "\<forall>a \<in> set acts. \<forall>g'. g' \<noteq> g \<longrightarrow> \<not> emits g' a \<and> \<not> fails g' a"
    and "\<And>u. is_visited vis u \<Longrightarrow> is_visited vis' u"
    and "cnt \<le> cnt'"
  shows "locals (acts @ h) vis' cnt' (gs[g := x])"
  unfolding locals_def
proof (intro allI impI)
  fix g' assume g': "g' < length (gs[g := x])"
  show "local_inv (acts @ h) vis' cnt' g' (snd (gs[g := x] ! g'))"
  proof (cases "g' = g")
    case True
    with assms(2,3) show ?thesis by simp
  next
    case False
    with g' assms(1) have "local_inv h vis cnt g' (snd (gs ! g'))" by (simp add: locals_def)
    from local_inv_mono [OF this _ assms(5,6)] assms(4) False g' show ?thesis by simp
  qed
qed

lemma locals_append:
  assumes "locals h vis cnt gs" and "local_inv h vis cnt (length gs) (snd y)"
  shows "locals h vis cnt (gs @ [y])"
  using assms by (auto simp: locals_def nth_append less_Suc_eq)

lemma locals_nth:
  "locals h vis cnt gs \<Longrightarrow> g < length gs \<Longrightarrow> gs ! g = (sd, p) \<Longrightarrow> local_inv h vis cnt g p"
  by (auto simp: locals_def)

lemma pushed_iff: "u \<in> set (pushed h) \<longleftrightarrow> (\<exists>g. Push g u \<in> set h)"
proof (induction h)
  case Nil
  show ?case by simp
next
  case (Cons a h)
  then show ?case by (cases a) auto
qed

lemma admitted_iff: "u \<in> set (admitted h) \<longleftrightarrow> (\<exists>g. Admit g u \<in> set h)"
proof (induction h)
  case Nil
  show ?case by simp
next
  case (Cons a h)
  then show ?case by (cases a) auto
qed

lemma admit_unique:
  "distinct (admitted h) \<Longrightarrow> Admit g u \<in> set h \<Longrightarrow> Admit g' u \<in> set h \<Longrightarrow> g' = g"
proof (induction h)
  case Nil
  then show ?case by simp
next
  case (Cons a h)
  then show ?case by (cases a) (auto simp: admitted_iff)
qed

lemma in_order_split: "in_order (post @ a # past) \<Longrightarrow> justified a past \<and> in_order past"
  by (induction post) auto

lemma in_order_push:
  assumes "in_order h" and "Push g u \<in> set h"
  shows "Admit g u \<in> set h"
proof -
  from assms(2) obtain post past where h: "h = post @ Push g u # past"
    by (auto simp: in_set_conv_decomp)
  with assms(1) in_order_split [of post "Push g u" past] show ?thesis by auto
qed

lemma pushed_bystander:
  "\<forall>a \<in> set acts. bystander a \<Longrightarrow> pushed (acts @ h) = pushed h"
proof (induction acts)
  case Nil
  show ?case by simp
next
  case (Cons a acts)
  then show ?case by (cases a) auto
qed

lemma in_order_bystander:
  "\<forall>a \<in> set acts. bystander a \<Longrightarrow> in_order h \<Longrightarrow> in_order (acts @ h)"
proof (induction acts)
  case Nil
  then show ?case by simp
next
  case (Cons a acts)
  then show ?case by (cases a) auto
qed

lemma bystander_quiet: "bystander a \<Longrightarrow> \<not> emits g a \<and> \<not> fails g a"
  by (cases a) auto

lemma history_inv_local_step:
  assumes inv: "history_inv s"
    and g: "g < length (goroutines s)"
    and gs': "goroutines s' = (goroutines s)[g := x]"
    and h': "history s' = acts @ history s"
    and vis: "\<And>u. is_visited (visited s) u \<Longrightarrow> is_visited (visited s') u"
    and cnt: "count s \<le> count s'"
    and loc: "local_inv (acts @ history s) (visited s') (count s') g (snd x)"
    and others: "\<And>a g'. a \<in> set acts \<Longrightarrow> g' \<noteq> g \<Longrightarrow> \<not> emits g' a \<and> \<not> fails g' a"
    and ord: "in_order (acts @ history s)"
    and dist: "distinct (pushed (acts @ history s))"
    and fe1: "\<And>a b. a \<in> set acts \<Longrightarrow> fails g a \<Longrightarrow> b \<in> set (acts @ history s) \<Longrightarrow> \<not> emits g b"
    and fe2: "\<And>a b. a \<in> set acts \<Longrightarrow> emits g a \<Longrightarrow> b \<in> set (history s) \<Longrightarrow> \<not> fails g b"
  shows "history_inv s'"
proof -
  from inv have L: "locals (history s) (visited s) (count s) (goroutines s)"
    by (simp add: history_inv_def)
  from inv have B: "\<And>a g. a \<in> set (history s) \<Longrightarrow> emits g a \<or> fails g a \<Longrightarrow> g < length (goroutines s)"
    unfolding history_inv_def by blast
  from inv have F: "\<And>g a b. a \<in> set (history s) \<Longrightarrow> fails g a \<Longrightarrow> b \<in> set (history s) \<Longrightarrow> \<not> emits g b"
    unfolding history_inv_def by blast
  from inv have Z: "0 \<le> count s"
    by (simp add: history_inv_def)
  have others': "\<forall>a \<in> set acts. \<forall>g'. g' \<noteq> g \<longrightarrow> \<not> emits g' a \<and> \<not> fails g' a"
    using others by blast
  have 1: "locals (acts @ history s) (visited s') (count s') ((goroutines s)[g := x])"
    by (rule locals_update [OF L g loc others' vis cnt])
  have 2: "g' < length ((goroutines s)[g := x])"
    if "a \<in> set (acts @ history s)" and "emits g' a \<or> fails g' a" for a g'
  proof (cases "a \<in> set acts")
    case True
    with others [of a g'] that(2) have "g' = g" by blast
    with g show ?thesis by simp
  next
    case False
    with that(1) have "a \<in> set (history s)" by simp
    from B [OF this that(2)] show ?thesis by simp
  qed
  have 5: "\<not> emits g' b"
    if a: "a \<in> set (acts @ history s)" and fa: "fails g' a" and b: "b \<in> set (acts @ history s)"
    for g' a b
  proof (cases "g' = g")
    case False
    from others [of a g'] False fa a have a': "a \<in> set (history s)" by auto
    show ?thesis
    proof (cases "b \<in> set acts")
      case True
      with others [of b g'] False show ?thesis by blast
    next
      case False
      with b have "b \<in> set (history s)" by simp
      from F [OF a' fa this] show ?thesis .
    qed
  next
    case True
    show ?thesis
    proof (cases "a \<in> set acts")
      case True
      from fe1 [OF True _ b] fa \<open>g' = g\<close> show ?thesis by simp
    next
      case False
      with a have a': "a \<in> set (history s)" by simp
      show ?thesis
      proof (cases "b \<in> set acts")
        case True
        from fe2 [OF True _ a'] fa \<open>g' = g\<close> show ?thesis by blast
      next
        case False
        with b have "b \<in> set (history s)" by simp
        from F [OF a' fa this] show ?thesis .
      qed
    qed
  qed
  have Z': "0 \<le> count s'" using Z cnt by simp
  show ?thesis
    unfolding history_inv_def gs' h'
    using 1 2 5 ord dist Z' by blast
qed

lemma history_inv_quiet_step:
  assumes inv: "history_inv s"
    and g: "g < length (goroutines s)"
    and gs': "goroutines s' = (goroutines s)[g := x]"
    and h': "history s' = history s"
    and vis: "\<And>u. is_visited (visited s) u \<Longrightarrow> is_visited (visited s') u"
    and cnt: "count s \<le> count s'"
    and loc: "local_inv (history s) (visited s') (count s') g (snd x)"
  shows "history_inv s'"
proof (rule history_inv_local_step [OF inv g gs', where acts = "[]"])
  show "history s' = [] @ history s" using h' by simp
  show "local_inv ([] @ history s) (visited s') (count s') g (snd x)" using loc by simp
  show "in_order ([] @ history s)" using inv by (simp add: history_inv_def)
  show "distinct (pushed ([] @ history s))" using inv by (simp add: history_inv_def)
qed (use vis cnt in simp_all)

lemma crawl_returns_local [simp]: "local_inv h vis cnt g (crawl_returns sd t)"
  by (simp add: crawl_returns_def)

lemma untouched_Cons [simp]:
  "untouched g (a # h) \<longleftrightarrow> \<not> emits g a \<and> \<not> fails g a \<and> untouched g h"
  by (auto simp: untouched_def)

lemma origin_Cons [simp]: "origin g u h \<Longrightarrow> origin g u (a # h)"
  by (auto simp: origin_def)

lemma history_inv_Go:
  assumes "step C (Go g) s = Some s'" and "history_inv s" and "admission_inv C s"
  shows "history_inv s'"
proof -
  from assms(2) have L: "locals (history s) (visited s) (count s) (goroutines s)"
    and O: "in_order (history s)" and D: "distinct (pushed (history s))"
    and Z: "0 \<le> count s"
    by (simp_all add: history_inv_def)
  note loc = locals_nth [OF L]
  from assms(1) show ?thesis
  proof (cases rule: Go_cases)
    case (Lock sd u)
    from loc [OF Lock(1,2)] show ?thesis
      by (intro history_inv_quiet_step [OF assms(2) Lock(1), where x = "(sd, Checking u)"])
         (simp_all add: Lock(4))
  next
    case (RejectReturn sd u)
    from loc [OF RejectReturn(1,2)] show ?thesis
      by (intro history_inv_quiet_step [OF assms(2) RejectReturn(1),
            where x = "(sd, crawl_returns sd (clock s))"])
         (simp_all add: RejectReturn(3))
  next
    case (Mark sd u)
    from loc [OF Mark(1,2)] show ?thesis
      by (intro history_inv_quiet_step [OF assms(2) Mark(1), where x = "(sd, Counting u)"])
         (simp_all add: Mark(3))
  next
    case (Count sd u)
    from loc [OF Count(1,2)] Z show ?thesis
      by (intro history_inv_quiet_step [OF assms(2) Count(1), where x = "(sd, Reading u)"])
         (simp_all add: Count(3))
  next
    case (Read sd u)
    from loc [OF Read(1,2)] show ?thesis
      by (intro history_inv_quiet_step [OF assms(2) Read(1),
            where x = "(sd, Unlocking u (count s))"])
         (simp_all add: Read(3))
  next
    case (Unlock sd u c)
    from loc [OF Unlock(1,2)] show ?thesis
      by (intro history_inv_quiet_step [OF assms(2) Unlock(1),
            where x = "(sd, Requesting u c (clock s))"])
         (simp_all add: Unlock(3))
  next
    case (Extract sd u c b links)
    from loc [OF Extract(1,2)] show ?thesis
      by (intro history_inv_quiet_step [OF assms(2) Extract(1),
            where x = "(sd, Looping u c links)"])
         (simp_all add: Extract(4))
  next
    case (LoopEnd sd u c)
    from loc [OF LoopEnd(1,2)] show ?thesis
      by (intro history_inv_quiet_step [OF assms(2) LoopEnd(1),
            where x = "(sd, crawl_returns sd (clock s))"])
         (simp_all add: LoopEnd(3))
  next
    case (Wake sd t)
    show ?thesis
      by (intro history_inv_quiet_step [OF assms(2) Wake(1), where x = "(sd, Signalling)"])
         (simp_all add: Wake(4))
  next
    case (Reject sd u)
    from loc [OF Reject(1,2)] O D show ?thesis
      by (intro history_inv_local_step [OF assms(2) Reject(1),
            where x = "(sd, Rejecting u)" and acts = "[Reject g u]"])
         (simp_all add: Reject(4))
  next
    case (Admit_ sd u)
    from loc [OF Admit_(1,2)] O D show ?thesis
      by (intro history_inv_local_step [OF assms(2) Admit_(1),
            where x = "(sd, Marking u)" and acts = "[Admit g u]"])
         (simp_all add: Admit_(5))
  next
    case (SendClosed sd u c b)
    with assms(2) show ?thesis by (simp add: history_inv_def)
  next
    case (Send sd u c b)
    from loc [OF Send(1,2)] have adm: "Admit g u \<in> set (history s)"
      and fet: "Fetched g u 200 \<in> set (history s)" and unt: "untouched g (history s)"
      and rest: "is_visited (visited s) u" "1 \<le> c" "c \<le> count s"
      by simp_all
    have new: "u \<notin> set (pushed (history s))"
    proof
      assume "u \<in> set (pushed (history s))"
      then obtain g' where p: "Push g' u \<in> set (history s)" by (auto simp: pushed_iff)
      from in_order_push [OF O p] have "Admit g' u \<in> set (history s)" .
      moreover from assms(3) have "distinct (admitted (history s))"
        by (simp add: admission_inv_def)
      ultimately have "g' = g" using adm by (blast dest: admit_unique)
      with p unt show False by (auto simp: untouched_def)
    qed
    from unt have nf: "\<And>b. b \<in> set (history s) \<Longrightarrow> \<not> fails g b"
      by (simp add: untouched_def)
    from adm fet new O D nf show ?thesis
      by (intro history_inv_local_step [OF assms(2) Send(1),
            where x = "(sd, Extracting u c b)" and acts = "[Push g u]"])
         (simp_all add: Send(5))
  next
    case (ExtractPanic sd u c b p)
    with assms(2) show ?thesis by (simp add: history_inv_def)
  next
    case (Spawn_ sd u c link links)
    let ?n = "length (goroutines s)"
    let ?mid = "s\<lparr>goroutines := (goroutines s)[g := (sd, Looping u c links)],
                   history := Spawn g ?n link # history s\<rparr>"
    from loc [OF Spawn_(1,2)] have push: "Push g u \<in> set (history s)"
      and nf: "\<And>b. b \<in> set (history s) \<Longrightarrow> \<not> fails g b" by simp_all
    from push have ex: "\<exists>u. Push g u \<in> set (history s)" by blast
    from push nf ex O D have mid: "history_inv ?mid"
      by (intro history_inv_local_step [OF assms(2) Spawn_(1),
            where x = "(sd, Looping u c links)" and acts = "[Spawn g ?n link]"])
         simp_all
    from mid have Lm: "locals (history ?mid) (visited ?mid) (count ?mid) (goroutines ?mid)"
      by (simp add: history_inv_def)
    from assms(2) have B: "\<And>a g. a \<in> set (history s) \<Longrightarrow> emits g a \<or> fails g a
        \<Longrightarrow> g < length (goroutines s)"
      unfolding history_inv_def by blast
    have un: "untouched ?n (history ?mid)"
      unfolding untouched_def
    proof
      fix a assume "a \<in> set (history ?mid)"
      then consider "a = Spawn g ?n link" | "a \<in> set (history s)" by auto
      then show "\<not> emits ?n a \<and> \<not> fails ?n a"
      proof cases
        case 1
        with Spawn_(1) show ?thesis by simp
      next
        case 2
        with B [of a ?n] show ?thesis by blast
      qed
    qed
    have "local_inv (history ?mid) (visited ?mid) (count ?mid) (length (goroutines ?mid))
            (snd (False, Locking link))"
      using un by (auto simp: origin_def)
    from locals_append [OF Lm this]
    have 1: "locals (history s') (visited s') (count s') (goroutines s')"
      by (simp add: Spawn_(4))
    from mid have "\<And>a g. a \<in> set (history ?mid) \<Longrightarrow> emits g a \<or> fails g a
        \<Longrightarrow> g < length (goroutines ?mid)"
      unfolding history_inv_def by blast
    then have 2: "\<forall>a \<in> set (history s'). \<forall>g. emits g a \<or> fails g a
        \<longrightarrow> g < length (goroutines s')"
      by (simp add: Spawn_(4) less_Suc_eq)
    from mid 1 2 show ?thesis
      by (simp add: history_inv_def Spawn_(4))
  next
    case (Skip_ sd u c link links)
    from loc [OF Skip_(1,2)] O D show ?thesis
      by (intro history_inv_local_step [OF assms(2) Skip_(1),
            where x = "(sd, Looping u c links)" and acts = "[Skip g link]"])
         (simp_all add: Skip_(4))
  next
    case (Signal sd)
    from O D show ?thesis
      by (intro history_inv_local_step [OF assms(2) Signal(1),
            where x = "(sd, Finished)" and acts = "[SignalDone]"])
         (simp_all add: Signal(4))
  qed
qed

lemma history_inv_Response:
  assumes "step C (Response g r) s = Some s'" and "history_inv s"
  shows "history_inv s'"
proof -
  from assms(2) have L: "locals (history s) (visited s) (count s) (goroutines s)"
    and O: "in_order (history s)" and D: "distinct (pushed (history s))"
    by (simp_all add: history_inv_def)
  note loc = locals_nth [OF L]
  from assms(1) show ?thesis
  proof (cases rule: Response_cases)
    case (CreateFails sd u c t0)
    from loc [OF CreateFails(1,2)] have adm: "Admit g u \<in> set (history s)"
      and unt: "untouched g (history s)" by simp_all
    from unt have ne: "\<And>b. b \<in> set (history s) \<Longrightarrow> \<not> emits g b"
      by (simp add: untouched_def)
    from adm O D ne show ?thesis
      by (intro history_inv_local_step [OF assms(2) CreateFails(1),
            where x = "(sd, crawl_returns sd (clock s))" and acts = "[FetchError g u]"])
         (auto simp: CreateFails(4))
  next
    case (FetchError sd u c t0 err)
    from loc [OF FetchError(1,2)] have adm: "Admit g u \<in> set (history s)"
      and unt: "untouched g (history s)" by simp_all
    from unt have ne: "\<And>b. b \<in> set (history s) \<Longrightarrow> \<not> emits g b"
      by (simp add: untouched_def)
    from adm O D ne show ?thesis
      by (intro history_inv_local_step [OF assms(2) FetchError(1),
            where x = "(sd, crawl_returns sd (clock s))" and acts = "[FetchError g u]"])
         (auto simp: FetchError(5))
  next
    case (FetchStatus sd u c t0 resp)
    from loc [OF FetchStatus(1,2)] have adm: "Admit g u \<in> set (history s)"
      and unt: "untouched g (history s)" by simp_all
    from unt have ne: "\<And>b. b \<in> set (history s) \<Longrightarrow> \<not> emits g b"
      by (simp add: untouched_def)
    from adm O D ne show ?thesis
      by (intro history_inv_local_step [OF assms(2) FetchStatus(1),
            where x = "(sd, crawl_returns sd (clock s))"
              and acts = "[Fetched g u (StatusCode resp)]"])
         (auto simp: FetchStatus(6))
  next
    case (FetchOk sd u c t0 resp)
    from loc [OF FetchOk(1,2)] O D show ?thesis
      by (intro history_inv_local_step [OF assms(2) FetchOk(1),
            where x = "(sd, Sending u c (Body resp))" and acts = "[Fetched g u 200]"])
         (simp_all add: FetchOk(6))
  qed
qed

lemma history_inv_bystanders:
  assumes "history_inv s" and "history s' = acts @ history s"
    and bys: "\<forall>a \<in> set acts. bystander a"
    and "goroutines s' = goroutines s" and "visited s' = visited s" and "count s' = count s"
  shows "history_inv s'"
proof -
  from bys have q: "\<And>a g. a \<in> set acts \<Longrightarrow> \<not> emits g a \<and> \<not> fails g a"
    using bystander_quiet by blast
  from assms(1) have L: "locals (history s) (visited s) (count s) (goroutines s)"
    by (simp add: history_inv_def)
  have 1: "locals (acts @ history s) (visited s) (count s) (goroutines s)"
    unfolding locals_def
  proof (intro allI impI)
    fix g assume "g < length (goroutines s)"
    with L have "local_inv (history s) (visited s) (count s) g (snd (goroutines s ! g))"
      by (simp add: locals_def)
    then show "local_inv (acts @ history s) (visited s) (count s) g (snd (goroutines s ! g))"
      by (rule local_inv_mono) (use q in auto)
  qed
  from assms(1) have B: "\<And>a g. a \<in> set (history s) \<Longrightarrow> emits g a \<or> fails g a
      \<Longrightarrow> g < length (goroutines s)"
    unfolding history_inv_def by blast
  have 2: "\<forall>a \<in> set (acts @ history s). \<forall>g. emits g a \<or> fails g a
      \<longrightarrow> g < length (goroutines s)"
    using B q by auto
  from assms(1) have F: "\<And>g a b. a \<in> set (history s) \<Longrightarrow> fails g a
      \<Longrightarrow> b \<in> set (history s) \<Longrightarrow> \<not> emits g b"
    unfolding history_inv_def by blast
  have 5: "\<forall>g. (\<exists>a \<in> set (acts @ history s). fails g a)
      \<longrightarrow> (\<forall>a \<in> set (acts @ history s). \<not> emits g a)"
    using F q by auto
  from assms(1) have "in_order (history s)" "distinct (pushed (history s))" "0 \<le> count s"
    by (simp_all add: history_inv_def)
  with 1 2 5 bys show ?thesis
    by (simp add: history_inv_def assms(2,4,5,6) in_order_bystander pushed_bystander)
qed

lemma history_inv_step:
  assumes "step C e s = Some s'" and "history_inv s" and "admission_inv C s"
  shows "history_inv s'"
  using assms(1)
proof (cases rule: Other_cases)
  case (Go g)
  with assms show ?thesis by (auto intro: history_inv_Go)
next
  case (Response g r)
  with assms show ?thesis by (auto intro: history_inv_Response)
next
  case (Other acts)
  with assms(2) show ?thesis by (intro history_inv_bystanders [of s s' acts]) simp_all
qed

lemma history_inv_start: "history_inv (main_start C None)"
  by (simp add: history_inv_def main_start_def discoverURLs_def empty_state_def
      locals_def origin_def untouched_def)

lemma reachable_crawl_inv: "reachable C s \<Longrightarrow> crawl_inv C s"
  unfolding reachable_def
proof (elim exE)
  fix es assume "run C es (main_start C None) = Some s"
  then show "crawl_inv C s"
  proof (rule run_invariant)
    show "crawl_inv C (main_start C None)"
      by (simp add: crawl_inv_def admission_inv_start history_inv_start)
  next
    fix e s s' assume "step C e s = Some s'" and "crawl_inv C s"
    then show "crawl_inv C s'"
      by (simp add: crawl_inv_def admission_inv_step history_inv_step)
  qed
qed

lemma seed_inv_step:
  assumes "step C e s = Some s'" and "seed_inv s"
  shows "seed_inv s'"
  using assms(1)
proof (cases rule: Other_cases)
  case (Go g)
  with assms(1) have "step C (Go g) s = Some s'" by simp
  then show ?thesis
    using assms(2) by (cases rule: Go_cases) (auto simp: seed_inv_def)
next
  case (Response g r)
  with assms(1) have "step C (Response g r) s = Some s'" by simp
  then show ?thesis
    using assms(2) by (cases rule: Response_cases) (auto simp: seed_inv_def)
next
  case (Other acts)
  have ns: "a \<noteq> Spawn p c l" if "a \<in> set acts" for a p c l
    using Other(2) that by auto
  show ?thesis
    unfolding seed_inv_def
  proof (intro conjI allI impI)
    show "goroutines s' \<noteq> []"
      using Other(3) assms(2) by (simp add: seed_inv_def)
  next
    fix p c l assume "Spawn p c l \<in> set (history s')"
    with Other(1) ns have "Spawn p c l \<in> set (history s)" by auto
    with assms(2) show "0 < c" unfolding seed_inv_def by blast
  qed
qed

lemma seed_inv_start: "seed_inv (main_start C None)"
  by (simp add: seed_inv_def main_start_def discoverURLs_def start_workers_eq empty_state_def)

lemma spawned_not_seed:
  assumes "reachable C s" and "Spawn p c l \<in> set (history s)"
  shows "0 < c"
proof -
  from assms(1) have "seed_inv s"
    unfolding reachable_def
    by (blast intro: run_invariant [where P = seed_inv] seed_inv_start seed_inv_step)
  with assms(2) show ?thesis unfolding seed_inv_def by blast
qed

section \<open>The worklist invariant\<close>

text \<open>
  The URLs pushed so far, oldest first, are those the workers have received followed by
  those in the channel: a send appends its URL to the channel and nothing else adds to it
  or drops from it.
\<close>

lemma Go_keeps_channel:
  assumes "step C (Go g) s = Some s'" and "channel_inv s"
  shows "channel_inv s'"
  using assms by (cases rule: Go_cases) (simp_all add: channel_inv_def)

lemma Response_keeps_channel:
  assumes "step C (Response g r) s = Some s'" and "channel_inv s"
  shows "channel_inv s'"
  using assms by (cases rule: Response_cases) (simp_all add: channel_inv_def)

lemma channel_inv_step:
  assumes "step C e s = Some s'" and "channel_inv s"
  shows "channel_inv s'"
proof (cases e)
  case (Go g)
  with assms show ?thesis by (auto intro: Go_keeps_channel)
next
  case (Response g r)
  with assms show ?thesis by (auto intro: Response_keeps_channel)
next
  case (Work w)
  with assms(1) have "worker_receives w (workers s ! w) s = Some s'"
    by (auto simp: step.simps split: if_splits)
  with assms(2) show ?thesis
    by (cases "workers s ! w")
       (auto simp: channel_inv_def record_action_def split: list.splits if_splits)
next
  case (Scraped w env)
  with assms(1) have ws: "worker_scrapes w env (workers s ! w) s = Some s'"
    by (auto simp: step.simps split: if_splits)
  then obtain url where "workers s ! w = Scraping url" by (cases "workers s ! w") simp_all
  with ws assms(2) show ?thesis
    by (auto simp: channel_inv_def record_action_def scrapeURLFromWorklist_def
        split: option.splits)
next
  case Main
  with assms(1) have "main_step C (mainpc s) s = Some s'"
    by (auto simp: step.simps split: if_splits)
  with assms(2) show ?thesis
    by (cases "mainpc s")
       (auto simp: channel_inv_def record_action_def panic_with_def split: if_splits)
next
  case Tick
  with assms show ?thesis
    by (auto simp: step.simps channel_inv_def split: if_splits)
qed

lemma channel_inv_start: "channel_inv (main_start C None)"
  by (simp add: channel_inv_def main_start_def discoverURLs_def start_workers_eq empty_state_def)

lemma reachable_channel_inv: "reachable C s \<Longrightarrow> channel_inv s"
  unfolding reachable_def
  by (blast intro: run_invariant [where P = channel_inv] channel_inv_start channel_inv_step)

lemma push_is_send:
  assumes "step C e s = Some s'" and "pushed (history s') \<noteq> pushed (history s)"
  shows "\<exists>g u. e = Go g \<and> history s' = Push g u # history s \<and> worklist s' = worklist s @ [u]"
  using assms(1)
proof (cases rule: Other_cases)
  case (Go g)
  with assms(1) have "step C (Go g) s = Some s'" by simp
  then show ?thesis using assms(2) Go by (cases rule: Go_cases) simp_all
next
  case (Response g r)
  with assms(1) have "step C (Response g r) s = Some s'" by simp
  then show ?thesis using assms(2) by (cases rule: Response_cases) simp_all
next
  case (Other acts)
  with assms(2) show ?thesis by (simp add: pushed_bystander)
qed

lemma push_on_channel:
  assumes "channel_inv s" and "Push p u \<in> set (history s)"
  shows "u \<in> set (received (history s)) \<or> u \<in> set (worklist s)"
proof -
  from assms(2) have "u \<in> set (rev (pushed (history s)))" by (auto simp: pushed_iff)
  with assms(1) show ?thesis by (auto simp: channel_inv_def)
qed

section \<open>The base of \<^verbatim>\<open>extractLinks\<close>\<close>

text \<open>
  A goroutine at \<^verbatim>\<open>worklist <- url\<close> or at \<^verbatim>\<open>extractLinks(resp.Body, url)\<close> has come
  through \<^verbatim>\<open>makeRequest(url)\<close>, where \<^verbatim>\<open>http.NewRequest\<close> parsed the same URL.
\<close>

lemma fetched_url_crawl_returns [simp]: "fetched_url (crawl_returns sd t) = None"
  by (simp add: crawl_returns_def)

lemma parsed_inv_step:
  assumes "step C e s = Some s'" and "parsed_inv C s"
  shows "parsed_inv C s'"
  using assms(1)
proof (cases rule: Other_cases)
  case (Go g)
  with assms(1) have "step C (Go g) s = Some s'" by simp
  then show ?thesis
    using assms(2)
    by (cases rule: Go_cases)
       (auto simp: parsed_inv_def nth_list_update nth_append less_Suc_eq)
next
  case (Response g r)
  with assms(1) have "step C (Response g r) s = Some s'" by simp
  then show ?thesis
    using assms(2)
    by (cases rule: Response_cases) (auto simp: parsed_inv_def nth_list_update)
next
  case (Other acts)
  with assms(2) show ?thesis by (simp add: parsed_inv_def)
qed

lemma parsed_inv_start: "parsed_inv C (main_start C None)"
  by (simp add: parsed_inv_def main_start_def discoverURLs_def start_workers_eq empty_state_def)

lemma extracting_is_parsed:
  assumes "reachable C s" and "g < length (goroutines s)"
    and "goroutines s ! g = (sd, Extracting u c body)"
  shows "url_Parse (lib C) u \<noteq> None"
proof -
  from assms(1) have "parsed_inv C s"
    unfolding reachable_def
    by (blast intro: run_invariant [where P = "parsed_inv C"] parsed_inv_start parsed_inv_step)
  with assms(2,3) show ?thesis by (auto simp: parsed_inv_def)
qed

section \<open>The sample runs\<close>

lemma reachable_capped_requesting: "reachable capped_config capped_requesting"
  unfolding capped_requesting_def
  by (rule reachable_the_run) (simp add: run_defs capped_config_def capped_prefix_def)

lemma reachable_capped_final: "reachable capped_config capped_final"
  unfolding capped_final_def
  by (rule reachable_the_run) (simp add: run_defs capped_config_def capped_schedule_def capped_prefix_def)

lemma capped_final_history:
  "history capped_final =
     [Reject 2 ''http://a/c'', Fetched 1 ''http://a/b'' 500, Admit 1 ''http://a/b'',
      Spawn 0 2 ''http://a/c'', Spawn 0 1 ''http://a/b'', Push 0 ''http://a/'',
      Fetched 0 ''http://a/'' 200, Admit 0 ''http://a/'']"
  by (simp add: capped_final_def run_defs capped_config_def capped_schedule_def capped_prefix_def)

lemma capped_example:
  "reachable capped_config capped_final \<and> maxURLs capped_config = 2
   \<and> count capped_final = 2 \<and> pushed (history capped_final) = [''http://a/'']
   \<and> pending_branches capped_final = 0"
proof -
  have "count capped_final = 2" "pending_branches capped_final = 0"
    by (simp_all add: capped_final_def run_defs capped_config_def capped_schedule_def
          capped_prefix_def pending_branches_def crawl_over_def)
  moreover have "pushed (history capped_final) = [''http://a/'']"
    by (simp add: capped_final_history)
  moreover have "maxURLs capped_config = 2" by (simp add: capped_config_def)
  ultimately show ?thesis using reachable_capped_final by simp
qed






lemma reachable_seed_sending: "reachable (main_config absolute_lib) seed_sending"
  unfolding seed_sending_def
  by (rule reachable_the_run) (simp add: run_defs)

lemma seed_sending_step:
  "step (main_config absolute_lib) (Go 0) seed_sending = Some seed_extracting"
  by (simp add: seed_sending_def seed_extracting_def run_defs)

lemma seed_sending_facts:
  "worklist seed_sending = []"
  "pushed (history seed_sending) = []"
  "worklist seed_extracting = [''http://books.toscrape.com'']"
  "pushed (history seed_extracting) = [''http://books.toscrape.com'']"
  "history seed_extracting = Push 0 ''http://books.toscrape.com'' # history seed_sending"
  by (simp_all add: seed_sending_def seed_extracting_def run_defs)

lemma capped_final_channel:
  "worklist capped_final = [''http://a/'']"
  "received (history capped_final) = []"
  by (simp_all add: capped_final_history)
     (simp add: capped_final_def run_defs capped_config_def capped_schedule_def capped_prefix_def)

lemma reachable_seed_extracting: "reachable (main_config absolute_lib) seed_extracting"
  by (rule reachable_run [OF reachable_seed_sending, of "[Go 0]"])
     (simp add: seed_sending_step)

lemma seed_extracting_facts:
  "goroutines seed_extracting ! 0
     = (True, Extracting ''http://books.toscrape.com'' 1 [link_to ''http://books.toscrape.com/slow''])"
  "panicked seed_extracting = None" "mainpc seed_extracting \<noteq> Exited"
  "0 < length (goroutines seed_extracting)"
  by (simp_all add: seed_extracting_def run_defs)

lemma reachable_colon_seed_requested: "reachable colon_seed_config colon_seed_requested"
  unfolding colon_seed_requested_def
  by (rule reachable_the_run) (simp add: run_defs colon_seed_config_def)

lemma colon_seed_facts:
  "goroutines colon_seed_requested ! 0 = (True, Requesting '':'' 1 0)"
  "panicked colon_seed_requested = None" "mainpc colon_seed_requested \<noteq> Exited"
  "0 < length (goroutines colon_seed_requested)"
  "logged colon_seed_requested = []"
  "clock colon_seed_requested = 0"
  "worklist colon_seed_requested = []"
  "failedPages colon_seed_requested = 0"
  "history colon_seed_requested = [Admit 0 '':'']"
  by (simp_all add: colon_seed_requested_def run_defs colon_seed_config_def)

lemma colon_does_not_parse: "url_Parse (lib colon_seed_config) '':'' = None"
  by (simp add: colon_seed_config_def sample_defs)

lemma scheme_lib_total: "\<forall>b ref p. URL_Parse scheme_lib (Some b) ref \<noteq> Inl p"
  by (simp add: scheme_lib_def sample_URL_Parse_def split: option.splits)

lemma absolute_lib_total: "\<forall>b ref p. URL_Parse absolute_lib (Some b) ref \<noteq> Inl p"
  by (simp add: absolute_lib_def)

section \<open>The accounting of the workers\<close>

lemma filter_update_length:
  "i < length xs \<Longrightarrow>
   length (filter P (xs[i := x])) =
     length (filter P xs) - (if P (xs ! i) then 1 else 0) + (if P x then 1 else 0)"
proof (induction xs arbitrary: i)
  case Nil
  then show ?case by simp
next
  case (Cons a xs)
  show ?case
  proof (cases i)
    case 0
    then show ?thesis by simp
  next
    case (Suc k)
    with Cons.prems have k: "k < length xs" by simp
    have "P (xs ! k) \<Longrightarrow> 0 < length (filter P xs)"
      using nth_mem [OF k] by (fastforce simp: filter_empty_conv)
    with Cons.IH [OF k] Suc show ?thesis by auto
  qed
qed

lemma filter_pos:
  "i < length xs \<Longrightarrow> P (xs ! i) \<Longrightarrow> 0 < length (filter P xs)"
  using nth_mem [of i xs] by (fastforce simp: filter_empty_conv)

lemma scraping_le_live:
  "length (filter is_scraping ws) \<le> length (filter is_live ws)"
proof (induction ws)
  case Nil
  show ?case by simp
next
  case (Cons w ws)
  then show ?case by (cases w) auto
qed

lemma popped_Cons [simp]:
  "popped (s\<lparr>history := a # history s\<rparr>) =
     popped s + (case a of Pop w u \<Rightarrow> 1 | _ \<Rightarrow> 0)"
  by (cases a) (simp_all add: popped_def)

lemma Go_keeps_workers:
  assumes "step C (Go g) s = Some s'"
  shows "workers s' = workers s \<and> wg s' = wg s \<and> completedPages s' = completedPages s
    \<and> successPages s' = successPages s \<and> failedPages s' = failedPages s
    \<and> stats s' = stats s \<and> popped s' = popped s
    \<and> (mainpc s' = mainpc s \<or> mainpc s = AwaitDone \<and> mainpc s' = CloseWorklist)"
  using assms by (cases rule: Go_cases) (simp_all add: popped_def)

lemma Response_keeps_workers:
  assumes "step C (Response g r) s = Some s'"
  shows "workers s' = workers s \<and> wg s' = wg s \<and> completedPages s' = completedPages s
    \<and> successPages s' = successPages s \<and> failedPages s' = failedPages s
    \<and> stats s' = stats s \<and> popped s' = popped s \<and> mainpc s' = mainpc s"
  using assms by (cases rule: Response_cases) (simp_all add: popped_def)

lemma step_alive:
  "step C e s = Some s' \<Longrightarrow> mainpc s \<noteq> Exited \<and> panicked s = None"
  by (auto simp: step.simps split: if_splits)

lemma stats_inv_Work:
  assumes "step C (Work w) s = Some s'" and "stats_inv s"
  shows "stats_inv s'"
proof -
  from assms(1) have w: "w < length (workers s)"
    and wr: "worker_receives w (workers s ! w) s = Some s'"
    and alive: "mainpc s \<noteq> Exited"
    by (auto simp: step.simps split: if_splits)
  from wr have at: "workers s ! w = Receiving" by (cases "workers s ! w") simp_all
  from filter_pos [OF w, of is_live] at obtain n
    where live: "length (filter is_live (workers s)) = Suc n"
    by (cases "length (filter is_live (workers s))") simp_all
  show ?thesis
  proof (cases "worklist s")
    case Nil
    with wr at have s': "s' = s\<lparr>workers := (workers s)[w := WorkerDone], wg := wg s - 1\<rparr>"
      by (simp split: if_splits)
    from assms(2) live alive show ?thesis
      unfolding stats_inv_def s'
      by (auto simp: filter_update_length [OF w] at popped_def split: option.splits)
  next
    case (Cons url rest)
    with wr at have s': "s' = s\<lparr>worklist := rest, workers := (workers s)[w := Scraping url],
        history := Pop w url # history s\<rparr>"
      by (simp add: record_action_def)
    from assms(2) live alive show ?thesis
      unfolding stats_inv_def s'
      by (auto simp: filter_update_length [OF w] at popped_def split: option.splits)
  qed
qed

lemma stats_inv_Scraped:
  assumes "step C (Scraped w env) s = Some s'" and "stats_inv s"
  shows "stats_inv s'"
proof -
  from assms(1) have w: "w < length (workers s)"
    and ws: "worker_scrapes w env (workers s ! w) s = Some s'"
    and alive: "mainpc s \<noteq> Exited"
    by (auto simp: step.simps split: if_splits)
  from ws obtain url where at: "workers s ! w = Scraping url"
    by (cases "workers s ! w") simp_all
  from filter_pos [OF w, of is_scraping] at obtain m
    where scr: "length (filter is_scraping (workers s)) = Suc m"
    by (cases "length (filter is_scraping (workers s))") simp_all
  from filter_pos [OF w, of is_live] at obtain n
    where live: "length (filter is_live (workers s)) = Suc n"
    by (cases "length (filter is_live (workers s))") simp_all
  show ?thesis
  proof (cases "request_error env = None \<and> parse_error env = None \<and> save_error env = None")
    case True
    with ws at have s': "s' = s\<lparr>successPages := successPages s + 1,
        completedPages := completedPages s + 1,
        workers := (workers s)[w := Receiving],
        history := ScrapeOk w url # history s\<rparr>"
      by (simp add: scrapeURLFromWorklist_def record_action_def)
    from assms(2) scr live alive show ?thesis
      unfolding stats_inv_def s'
      by (auto simp: filter_update_length [OF w] at popped_def split: option.splits)
  next
    case False
    with ws at obtain err where s': "s' = s\<lparr>failedPages := failedPages s + 1,
        logged := logged s @ [FailedToScrape url err],
        workers := (workers s)[w := Receiving],
        history := ScrapeFailed w url # history s\<rparr>"
      by (auto simp: scrapeURLFromWorklist_def record_action_def split: option.splits)
    from assms(2) scr live alive show ?thesis
      unfolding stats_inv_def s'
      by (auto simp: filter_update_length [OF w] at popped_def split: option.splits)
  qed
qed

lemma stats_inv_Main:
  assumes "step C Main s = Some s'" and "stats_inv s"
  shows "stats_inv s'"
proof -
  from assms(1) have ms: "main_step C (mainpc s) s = Some s'"
    by (auto simp: step.simps split: if_splits)
  from ms assms(2) show ?thesis
    by (cases "mainpc s")
       (auto simp: stats_inv_def popped_def record_action_def panic_with_def
          split: if_splits option.splits)
qed

lemma stats_inv_step:
  assumes "step C e s = Some s'" and "stats_inv s"
  shows "stats_inv s'"
proof (cases e)
  case (Go g)
  with assms(1) have "step C (Go g) s = Some s'" by simp
  from Go_keeps_workers [OF this] step_alive [OF this] assms(2) show ?thesis
    by (auto simp: stats_inv_def split: option.splits)
next
  case (Response g r)
  with assms(1) have "step C (Response g r) s = Some s'" by simp
  from Response_keeps_workers [OF this] assms(2) show ?thesis
    by (auto simp: stats_inv_def split: option.splits)
next
  case (Work w)
  with assms show ?thesis by (auto intro: stats_inv_Work)
next
  case (Scraped w env)
  with assms show ?thesis by (auto intro: stats_inv_Scraped)
next
  case Main
  with assms show ?thesis by (auto intro: stats_inv_Main)
next
  case Tick
  with assms show ?thesis
    by (auto simp: step.simps stats_inv_def popped_def split: if_splits option.splits)
qed

lemma stats_inv_start: "stats_inv (main_start C None)"
  by (simp add: stats_inv_def main_start_def discoverURLs_def start_workers_eq empty_state_def
      popped_def)

lemma reachable_stats_inv: "reachable C s \<Longrightarrow> stats_inv s"
  unfolding reachable_def
  by (blast intro: run_invariant [where P = stats_inv] stats_inv_start stats_inv_step)

section \<open>Closing the worklist\<close>

text \<open>\<^verbatim>\<open>close(worklist)\<close> runs at most once.\<close>

lemma Go_keeps_closed:
  assumes "step C (Go g) s = Some s'"
  shows "closed s' = closed s
    \<and> count_list (history s') Close = count_list (history s) Close
    \<and> (mainpc s' = mainpc s \<or> mainpc s = AwaitDone \<and> mainpc s' = CloseWorklist)"
  using assms by (cases rule: Go_cases) simp_all

lemma Response_keeps_closed:
  assumes "step C (Response g r) s = Some s'"
  shows "closed s' = closed s
    \<and> count_list (history s') Close = count_list (history s) Close
    \<and> mainpc s' = mainpc s"
  using assms by (cases rule: Response_cases) simp_all

lemma close_inv_step:
  assumes "step C e s = Some s'" and "close_inv s"
  shows "close_inv s'"
proof (cases e)
  case (Go g)
  with assms(1) have "step C (Go g) s = Some s'" by simp
  from Go_keeps_closed [OF this] assms(2) show ?thesis
    by (auto simp: close_inv_def)
next
  case (Response g r)
  with assms(1) have "step C (Response g r) s = Some s'" by simp
  from Response_keeps_closed [OF this] assms(2) show ?thesis
    by (auto simp: close_inv_def)
next
  case (Work w)
  with assms(1) have "worker_receives w (workers s ! w) s = Some s'"
    by (auto simp: step.simps split: if_splits)
  with assms(2) show ?thesis
    by (cases "workers s ! w")
       (auto simp: close_inv_def record_action_def split: list.splits if_splits)
next
  case (Scraped w env)
  with assms(1) have ws: "worker_scrapes w env (workers s ! w) s = Some s'"
    by (auto simp: step.simps split: if_splits)
  then obtain url where "workers s ! w = Scraping url" by (cases "workers s ! w") simp_all
  with ws assms(2) show ?thesis
    by (auto simp: close_inv_def record_action_def scrapeURLFromWorklist_def
        split: option.splits)
next
  case Main
  with assms(1) have "main_step C (mainpc s) s = Some s'"
    by (auto simp: step.simps split: if_splits)
  with assms(2) show ?thesis
    by (cases "mainpc s")
       (auto simp: close_inv_def record_action_def panic_with_def split: if_splits)
next
  case Tick
  with assms show ?thesis
    by (auto simp: step.simps close_inv_def split: if_splits)
qed

lemma close_inv_start: "close_inv (main_start C None)"
  by (simp add: close_inv_def main_start_def discoverURLs_def start_workers_eq empty_state_def)

lemma closed_at_most_once:
  assumes "reachable C s"
  shows "count_list (history s) Close \<le> 1"
proof -
  from assms have "close_inv s"
    unfolding reachable_def
    by (blast intro: run_invariant [where P = close_inv] close_inv_start close_inv_step)
  then show ?thesis by (simp add: close_inv_def)
qed

text \<open>
  C1. The claim: the worklist is closed exactly once, and only once the seed branch and
  every branch started from it have returned. It is closed at most once, but the code
  signals after a fixed sleep, not when the branches are done. With the configuration of
  \<^verbatim>\<open>main\<close> and a linked page that answers after six seconds, the worklist is closed
  while one branch is still pending, and that branch's send then panics.
\<close>

theorem worklist_closed_with_pending_branch:
  "map_option closed
     (run (main_config absolute_lib) slow_child_schedule
        (main_start (main_config absolute_lib) None))
     = Some True
   \<and> map_option pending_branches
     (run (main_config absolute_lib) slow_child_schedule
        (main_start (main_config absolute_lib) None))
     = Some 1
   \<and> map_option panicked
     (run (main_config absolute_lib) (slow_child_schedule @ [Go 1])
        (main_start (main_config absolute_lib) None))
     = Some (Some SendOnClosedChannel)"
  by (simp add: run_defs slow_child_schedule_def pending_branches_def crawl_over_def)

section \<open>Admission\<close>



text \<open>
  C3. In every reachable state, for every site and every interleaving, the number of
  admissions is at most \<^verbatim>\<open>maxURLs\<close> (and none at all when \<^verbatim>\<open>maxURLs\<close> is negative), and so
  is \<^verbatim>\<open>count\<close>: check, mark and increment all happen between one \<^verbatim>\<open>mu.Lock()\<close> and its
  \<^verbatim>\<open>mu.Unlock()\<close>, which is what the invariant of the mutex carries through the proof.
\<close>

theorem admissions_capped:
  assumes "reachable C s"
  shows "int (length (admitted (history s))) \<le> max 0 (maxURLs C)
         \<and> count s \<le> max 0 (maxURLs C)"
  using reachable_admission_inv [OF assms] by (auto simp: admission_inv_def)

theorem admissions_capped_witness:
  "reachable capped_config capped_final
   \<and> length (admitted (history capped_final)) = 2
   \<and> count capped_final = 2
   \<and> maxURLs capped_config = 2"
  using admissions_capped [OF reachable_capped_final] reachable_capped_final
  by (simp add: capped_final_history)
     (simp add: capped_final_def run_defs capped_config_def capped_schedule_def capped_prefix_def)

section \<open>Work Items\<close>

text \<open>
  C4. In every reachable state no URL has been pushed twice; a push of a goroutine comes
  after that goroutine admitted the URL and after its fetch returned status 200; and every
  admission attempt, other than the seed's, is by a goroutine that some parent started
  with \<^verbatim>\<open>go crawl(link)\<close> after the parent's own push. The seed goroutine is goroutine
  0, which is never one started for a link. A push is a send on the worklist: the only
  step that adds to the pushed URLs is the step \<^verbatim>\<open>worklist <- url\<close> of a goroutine, which
  appends that URL to the channel; the pushed URLs, oldest first, are exactly those the
  workers have received followed by the content of the channel; so once a goroutine has
  started a child, its own URL is in the channel or has been received by a worker.
\<close>

theorem work_item_once_after_fetch:
  assumes "reachable C s"
  shows "distinct (pushed (history s))
    \<and> (\<forall>post past g u. history s = post @ Push g u # past \<longrightarrow>
          Admit g u \<in> set past \<and> Fetched g u 200 \<in> set past)
    \<and> (\<forall>post past c l. history s = post @ Admit c l # past
                          \<or> history s = post @ Reject c l # past \<longrightarrow>
          c = 0 \<or> (\<exists>p u mid before. past = mid @ Spawn p c l # before
                      \<and> Push p u \<in> set before))
    \<and> (\<forall>p c l. Spawn p c l \<in> set (history s) \<longrightarrow> 0 < c)
    \<and> rev (pushed (history s)) = rev (received (history s)) @ worklist s
    \<and> (\<forall>p c l. Spawn p c l \<in> set (history s) \<longrightarrow>
          (\<exists>u. Push p u \<in> set (history s)
             \<and> (u \<in> set (received (history s)) \<or> u \<in> set (worklist s))))
    \<and> (\<forall>e s'. step C e s = Some s' \<and> pushed (history s') \<noteq> pushed (history s) \<longrightarrow>
          (\<exists>g u. e = Go g \<and> history s' = Push g u # history s
             \<and> worklist s' = worklist s @ [u]))"
proof -
  from reachable_crawl_inv [OF assms] have O: "in_order (history s)"
    and D: "distinct (pushed (history s))"
    by (simp_all add: crawl_inv_def history_inv_def)
  have push: "Admit g u \<in> set past \<and> Fetched g u 200 \<in> set past"
    if "history s = post @ Push g u # past" for post past g u
    using O in_order_split [of post "Push g u" past] that by simp
  have child: "c = 0 \<or> (\<exists>p u mid before. past = mid @ Spawn p c l # before
                      \<and> Push p u \<in> set before)"
    if h: "history s = post @ a # past" and a: "a = Admit c l \<or> a = Reject c l"
    for post past a c l
  proof -
    from O h in_order_split [of post a past] have j: "justified a past" and o: "in_order past"
      by simp_all
    from j a have "origin c l past" by auto
    then show ?thesis
    proof (unfold origin_def, elim disjE exE)
      assume "c = 0" then show ?thesis by simp
    next
      fix p assume "Spawn p c l \<in> set past"
      then obtain mid before where past: "past = mid @ Spawn p c l # before"
        by (auto simp: in_set_conv_decomp)
      with o in_order_split [of mid "Spawn p c l" before] obtain u where "Push p u \<in> set before"
        by auto
      with past show ?thesis by blast
    qed
  qed
  from reachable_channel_inv [OF assms] have ch: "channel_inv s" .
  then have chan: "rev (pushed (history s)) = rev (received (history s)) @ worklist s"
    by (simp add: channel_inv_def)
  have sent: "\<exists>u. Push p u \<in> set (history s)
             \<and> (u \<in> set (received (history s)) \<or> u \<in> set (worklist s))"
    if "Spawn p c l \<in> set (history s)" for p c l
  proof -
    from that obtain mid before where h: "history s = mid @ Spawn p c l # before"
      by (auto simp: in_set_conv_decomp)
    with O in_order_split [of mid "Spawn p c l" before] obtain u where "Push p u \<in> set before"
      by auto
    with h have "Push p u \<in> set (history s)" by simp
    with push_on_channel [OF ch this] show ?thesis by blast
  qed
  have send: "\<exists>g u. e = Go g \<and> history s' = Push g u # history s
             \<and> worklist s' = worklist s @ [u]"
    if "step C e s = Some s'" and "pushed (history s') \<noteq> pushed (history s)" for e s'
    using that by (rule push_is_send)
  from D push child spawned_not_seed [OF assms] chan sent send show ?thesis by blast
qed

theorem work_item_once_after_fetch_witness:
  "reachable capped_config capped_final
   \<and> pushed (history capped_final) = [''http://a/'']
   \<and> history capped_final =
       [Reject 2 ''http://a/c'', Fetched 1 ''http://a/b'' 500, Admit 1 ''http://a/b'',
        Spawn 0 2 ''http://a/c'', Spawn 0 1 ''http://a/b'']
       @ Push 0 ''http://a/'' # [Fetched 0 ''http://a/'' 200, Admit 0 ''http://a/'']
   \<and> Admit 0 ''http://a/'' \<in> set [Fetched 0 ''http://a/'' 200, Admit 0 ''http://a/'']
   \<and> Fetched 0 ''http://a/'' 200 \<in> set [Fetched 0 ''http://a/'' 200, Admit 0 ''http://a/'']
   \<and> worklist capped_final = [''http://a/'']
   \<and> received (history capped_final) = []
   \<and> rev (pushed (history capped_final))
       = rev (received (history capped_final)) @ worklist capped_final
   \<and> reachable (main_config absolute_lib) seed_sending
   \<and> step (main_config absolute_lib) (Go 0) seed_sending = Some seed_extracting
   \<and> pushed (history seed_sending) = []
   \<and> pushed (history seed_extracting) = [''http://books.toscrape.com'']
   \<and> worklist seed_sending = []
   \<and> worklist seed_extracting = worklist seed_sending @ [''http://books.toscrape.com'']
   \<and> history seed_extracting = Push 0 ''http://books.toscrape.com'' # history seed_sending"
proof -
  note final = work_item_once_after_fetch [OF reachable_capped_final]
  have ne: "pushed (history seed_extracting) \<noteq> pushed (history seed_sending)"
    by (simp add: seed_sending_facts)
  note send = work_item_once_after_fetch [OF reachable_seed_sending,
      THEN conjunct2, THEN conjunct2, THEN conjunct2, THEN conjunct2, THEN conjunct2,
      THEN conjunct2, rule_format, OF conjI [OF seed_sending_step ne]]
  from final send reachable_capped_final reachable_seed_sending seed_sending_step
  show ?thesis
    by (simp add: capped_final_history capped_final_channel seed_sending_facts)
qed

section \<open>The workers and the statistics\<close>

text \<open>
  Whenever the statistics have been saved, the saved successes and failures add up to the
  number of items popped, and the saved total is the number of successes.
\<close>

lemma saved_stats_account:
  assumes "reachable C s" and "stats s = Some st"
  shows "SuccessPages st + FailedPages st = int (popped s) \<and> TotalPages st = SuccessPages st"
proof -
  from reachable_stats_inv [OF assms(1)] assms(2)
  have inv: "stats_inv s" and ex: "mainpc s = Exited"
    by (auto simp: stats_inv_def)
  from inv ex have "length (filter is_live (workers s)) = 0"
    by (auto simp: stats_inv_def)
  with scraping_le_live [of "workers s"] have "length (filter is_scraping (workers s)) = 0"
    by simp
  with inv assms(2) show ?thesis by (auto simp: stats_inv_def)
qed

text \<open>
  C5. The claim: succeeded plus failed equals the number of items popped, and the total
  recorded in the final statistics equals that number too. The first half holds in every
  run. But \<^verbatim>\<open>completedPages\<close>, which \<^verbatim>\<open>main\<close> saves as \<^verbatim>\<open>TotalPages\<close>, is incremented
  on success only: after one popped item whose request failed the saved record has
  \<^verbatim>\<open>TotalPages = 0\<close> with \<^verbatim>\<open>FailedPages = 1\<close>.
\<close>

theorem total_pages_omits_failed:
  "map_option stats
     (run (main_config absolute_lib) failed_scrape_schedule
        (main_start (main_config absolute_lib) None))
     = Some (Some \<lparr>TotalPages = 0, SuccessPages = 0, FailedPages = 1, Duration = 5,
                   StartURL = ''http://books.toscrape.com''\<rparr>)
   \<and> map_option popped
     (run (main_config absolute_lib) failed_scrape_schedule
        (main_start (main_config absolute_lib) None))
     = Some 1"
  by (simp add: run_defs failed_scrape_schedule_def popped_def request_fails_def)

section \<open>Failures during discovery\<close>

lemma fails_request_action: "request_failed L u r \<Longrightarrow> fails g (request_action L g u r)"
  by (auto simp: request_failed_def request_action_def fetch_failed_def fetch_action_def
      split: sum.splits)

lemma failed_never_emits:
  assumes "reachable C s" and "a \<in> set (history s)" and "fails g a"
    and "run C es s = Some s'" and "b \<in> set (history s')"
  shows "\<not> emits g b"
proof -
  from reachable_run [OF assms(1,4)] have "history_inv s'"
    using reachable_crawl_inv by (auto simp: crawl_inv_def)
  then have F: "\<And>g a b. a \<in> set (history s') \<Longrightarrow> fails g a
      \<Longrightarrow> b \<in> set (history s') \<Longrightarrow> \<not> emits g b"
    unfolding history_inv_def by blast
  from history_run [OF assms(4)] assms(2) have "a \<in> set (history s')" by auto
  from F [OF this assms(3,5)] show ?thesis .
qed

text \<open>
  C6, as the claim states it: a discovery fetch that fails is dropped silently. When
  \<^verbatim>\<open>http.NewRequest\<close> cannot create the request, \<^verbatim>\<open>makeRequest\<close> writes an \<^verbatim>\<open>slog.Error\<close>
  record before it returns the error. \<^verbatim>\<open>discoverURLs\<close> started on the seed \<^verbatim>\<open>:\<close>, which
  \<^verbatim>\<open>url.Parse\<close> rejects (missing protocol scheme), ends the branch of the seed with that
  record in the log, which was empty at the start; no Work Item is pushed and no failure is
  counted.
\<close>

theorem failed_request_is_logged:
  "logged (main_start colon_seed_config None) = []
   \<and> map_option logged
       (run colon_seed_config colon_seed_schedule (main_start colon_seed_config None))
     = Some [FailedToCreateRequest '':'']
   \<and> map_option history
       (run colon_seed_config colon_seed_schedule (main_start colon_seed_config None))
     = Some [FetchError 0 '':'', Admit 0 '':'']
   \<and> map_option worklist
       (run colon_seed_config colon_seed_schedule (main_start colon_seed_config None))
     = Some []
   \<and> map_option failedPages
       (run colon_seed_config colon_seed_schedule (main_start colon_seed_config None))
     = Some 0"
  by (simp add: run_defs colon_seed_config_def colon_seed_schedule_def sample_defs)

text \<open>
  C6, amended. When \<^verbatim>\<open>makeRequest\<close> of a goroutine fails (the request cannot be created,
  \<^verbatim>\<open>client.Do\<close> returns an error, or the status is not 200), the step changes exactly
  this: the goroutine's \<^verbatim>\<open>crawl\<close> has returned, the outcome is in the history, and the log
  has one more record, \<open>FailedToCreateRequest\<close>, if and only if the request could not be
  created. The worklist, the rest of the goroutine list and the three counters are as
  before: no Work Item, no link followed, no failure counted, no other branch touched, no
  retry. And in every state reached afterwards that goroutine has pushed nothing and
  followed no link.
\<close>

theorem discovery_failure_drops_branch:
  assumes "reachable C s" and "panicked s = None" and "mainpc s \<noteq> Exited"
    and "g < length (goroutines s)" and "goroutines s ! g = (sd, Requesting u current t0)"
    and "url_Parse (lib C) u = None \<or> isl r \<or> clock s \<le> t0 + client_timeout"
    and "request_failed (lib C) u r"
  shows "\<exists>s'. step C (Response g r) s = Some s'
           \<and> s' = s\<lparr>goroutines := (goroutines s)[g := (sd, crawl_returns sd (clock s))],
                     logged := logged s @ request_logs (lib C) u,
                     history := request_action (lib C) g u r # history s\<rparr>
           \<and> (url_Parse (lib C) u = None \<longrightarrow> logged s' = logged s @ [FailedToCreateRequest u])
           \<and> (url_Parse (lib C) u \<noteq> None \<longrightarrow> logged s' = logged s)
           \<and> crawl_over (crawl_returns sd (clock s))
           \<and> (\<forall>es s''. run C es s' = Some s'' \<longrightarrow> (\<forall>a \<in> set (history s''). \<not> emits g a))"
proof -
  let ?s' = "s\<lparr>goroutines := (goroutines s)[g := (sd, crawl_returns sd (clock s))],
               logged := logged s @ request_logs (lib C) u,
               history := request_action (lib C) g u r # history s\<rparr>"
  from assms(2-7) have st: "step C (Response g r) s = Some ?s'"
    by (auto simp: step.simps makeRequest_def request_failed_def request_action_def
        request_logs_def fetch_failed_def fetch_action_def record_action_def at_pc_def
        split: sum.splits option.splits)
  have logs: "url_Parse (lib C) u = None \<longrightarrow> logged ?s' = logged s @ [FailedToCreateRequest u]"
    "url_Parse (lib C) u \<noteq> None \<longrightarrow> logged ?s' = logged s"
    by (simp_all add: request_logs_def)
  have over: "crawl_over (crawl_returns sd (clock s))"
    by (simp add: crawl_over_def crawl_returns_def)
  from st have "run C [Response g r] s = Some ?s'" by simp
  from reachable_run [OF assms(1) this] have r': "reachable C ?s'" .
  have fa: "fails g (request_action (lib C) g u r)"
    by (rule fails_request_action [OF assms(7)])
  have mem: "request_action (lib C) g u r \<in> set (history ?s')" by simp
  have never: "\<not> emits g a"
    if "run C es ?s' = Some s''" and "a \<in> set (history s'')" for es s'' a
    by (rule failed_never_emits [OF r' mem fa that])
  show ?thesis
  proof (intro exI conjI)
    show "step C (Response g r) s = Some ?s'" by (rule st)
    show "?s' = ?s'" by (rule refl)
    show "url_Parse (lib C) u = None \<longrightarrow> logged ?s' = logged s @ [FailedToCreateRequest u]"
      by (rule logs)
    show "url_Parse (lib C) u \<noteq> None \<longrightarrow> logged ?s' = logged s" by (rule logs)
    show "crawl_over (crawl_returns sd (clock s))" by (rule over)
    show "\<forall>es s''. run C es ?s' = Some s'' \<longrightarrow> (\<forall>a \<in> set (history s''). \<not> emits g a)"
      using never by blast
  qed
qed

theorem discovery_failure_drops_branch_witness:
  "reachable capped_config capped_requesting
   \<and> step capped_config (Response 1 (Inr \<lparr>StatusCode = 500, Body = []\<rparr>)) capped_requesting
       = Some (capped_requesting
                 \<lparr>goroutines := (goroutines capped_requesting)[1 := (False, Finished)],
                  history := Fetched 1 ''http://a/b'' 500 # history capped_requesting\<rparr>)
   \<and> filter (emits 1) (history capped_final) = []
   \<and> reachable colon_seed_config colon_seed_requested
   \<and> step colon_seed_config (Response 0 (Inl (Error ''not sent''))) colon_seed_requested
       = Some (colon_seed_requested
                 \<lparr>goroutines := (goroutines colon_seed_requested)[0 := (True, Sleeping 5)],
                  logged := [FailedToCreateRequest '':''],
                  history := [FetchError 0 '':'', Admit 0 '':'']\<rparr>)"
proof -
  have 1: "goroutines capped_requesting ! 1 = (False, Requesting ''http://a/b'' 2 0)"
    and 2: "panicked capped_requesting = None" "mainpc capped_requesting \<noteq> Exited"
      "1 < length (goroutines capped_requesting)"
      "url_Parse (lib capped_config) ''http://a/b'' = None
        \<or> isl (Inr \<lparr>StatusCode = 500, Body = []\<rparr> :: error + response)
        \<or> clock capped_requesting \<le> 0 + client_timeout"
    by (simp_all add: capped_requesting_def run_defs capped_config_def capped_prefix_def)
  have 3: "request_failed (lib capped_config) ''http://a/b'' (Inr \<lparr>StatusCode = 500, Body = []\<rparr>)"
    by (simp add: request_failed_def fetch_failed_def)
  have p: "url_Parse (lib capped_config) ''http://a/b'' \<noteq> None"
    by (simp add: capped_config_def absolute_lib_def)
  have 4: "url_Parse (lib colon_seed_config) '':'' = None \<or> isl (Inl (Error ''not sent'') :: error + response)
        \<or> clock colon_seed_requested \<le> 0 + client_timeout"
    by simp
  have 5: "request_failed (lib colon_seed_config) '':'' (Inl (Error ''not sent''))"
    by (simp add: request_failed_def fetch_failed_def)
  note a = discovery_failure_drops_branch [OF reachable_capped_requesting 2(1,2,3) 1 2(4) 3]
  note b = discovery_failure_drops_branch [OF reachable_colon_seed_requested
      colon_seed_facts(2,3,4,1) 4 5]
  from a have a': "step capped_config (Response 1 (Inr \<lparr>StatusCode = 500, Body = []\<rparr>)) capped_requesting
       = Some (capped_requesting
                 \<lparr>goroutines := (goroutines capped_requesting)[1 := (False, Finished)],
                  history := Fetched 1 ''http://a/b'' 500 # history capped_requesting\<rparr>)"
    using p by (auto simp: request_action_def request_logs_def fetch_action_def crawl_returns_def)
  from b have b': "step colon_seed_config (Response 0 (Inl (Error ''not sent''))) colon_seed_requested
       = Some (colon_seed_requested
                 \<lparr>goroutines := (goroutines colon_seed_requested)[0 := (True, Sleeping 5)],
                  logged := [FailedToCreateRequest '':''],
                  history := [FetchError 0 '':'', Admit 0 '':'']\<rparr>)"
    using colon_does_not_parse
    by (auto simp: request_action_def request_logs_def colon_seed_facts sleep_seconds_def
        crawl_returns_def)
  from a' b' reachable_capped_requesting reachable_colon_seed_requested
  show ?thesis by (simp add: capped_final_history)
qed

section \<open>Failures of a worker\<close>

text \<open>
  C7. When the request, the parse or the save of a worker's item fails, the step of the
  worker changes exactly this: \<^verbatim>\<open>failedPages\<close> is one more, the error is logged, and
  the worker is back at the receive of its loop. The worklist, the other workers,
  \<^verbatim>\<open>main\<close> and the panic flag are as before, so the item is not queued again and
  nothing is aborted; with an item queued, the worker's next step receives it.
\<close>

theorem worker_failure_absorbed:
  assumes "panicked s = None" and "mainpc s \<noteq> Exited"
    and "w < length (workers s)" and "workers s ! w = Scraping url"
    and "request_error env \<noteq> None \<or> parse_error env \<noteq> None \<or> save_error env \<noteq> None"
  shows "\<exists>err s'. step C (Scraped w env) s = Some s'
           \<and> s' = s\<lparr>failedPages := failedPages s + 1,
                     logged := logged s @ [FailedToScrape url err],
                     workers := (workers s)[w := Receiving],
                     history := ScrapeFailed w url # history s\<rparr>
           \<and> (\<forall>next rest. worklist s = next # rest \<longrightarrow>
                 (\<exists>s''. step C (Work w) s' = Some s''
                    \<and> workers s'' ! w = Scraping next \<and> worklist s'' = rest))"
  using assms
  by (auto simp: step.simps scrapeURLFromWorklist_def record_action_def split: option.splits)

theorem worker_failure_absorbed_witness:
  "\<exists>err s'. step (main_config absolute_lib) (Scraped 0 request_fails) one_scraping = Some s'
     \<and> failedPages s' = 1 \<and> logged s' = [FailedToScrape ''http://a/1'' err]
     \<and> workers s' = [Receiving] \<and> panicked s' = None \<and> worklist s' = [''http://a/2'']
     \<and> (\<exists>s''. step (main_config absolute_lib) (Work 0) s' = Some s''
            \<and> workers s'' ! 0 = Scraping ''http://a/2'')"
  using worker_failure_absorbed
    [of one_scraping 0 "''http://a/1''" request_fails "main_config absolute_lib"]
  by (auto simp: one_scraping_def empty_state_def request_fails_def)

section \<open>Link extraction\<close>

text \<open>
  When \<^verbatim>\<open>base.Parse\<close> does not panic on the base, the extractor returns a list.
\<close>

lemma scan_attrs_returns:
  assumes "\<forall>ref p. URL_Parse L base ref \<noteq> Inl p"
  shows "\<exists>links'. scan_attrs L base as links = Inr links'"
  using assms by (induction as arbitrary: links) (auto split: sum.splits option.splits)

lemma scan_tokens_returns:
  assumes "\<forall>ref p. URL_Parse L base ref \<noteq> Inl p"
  shows "\<exists>links'. scan_tokens L base ts links = Inr links'"
proof (induction ts arbitrary: links)
  case Nil
  show ?case by simp
next
  case (Cons t ts)
  obtain links' where "scan_attrs L base (Attr t) links = Inr links'"
    using scan_attrs_returns [OF assms] by blast
  with Cons show ?case by simp
qed

lemma extractLinks_returns:
  assumes "url_Parse L baseURL = Some b" and "\<forall>ref p. URL_Parse L (Some b) ref \<noteq> Inl p"
  shows "\<exists>links. extractLinks L body baseURL = Inr links"
  using scan_tokens_returns [OF assms(2)] assms(1) by (simp add: extractLinks_def)

text \<open>
  C8, as the claim states it: for every body and every base URL string the extractor
  returns a list and never fails its caller, also when the base does not parse. The code
  discards the error of \<^verbatim>\<open>url.Parse(baseURL)\<close> and calls \<^verbatim>\<open>base.Parse\<close> on the \<^verbatim>\<open>nil\<close>
  base. On the base \<^verbatim>\<open>:\<close>, which does not parse, and a body with the one link
  \<^verbatim>\<open>/x\<close>, \<^verbatim>\<open>extractLinks\<close> called on these arguments panics with a nil pointer
  dereference.
\<close>

theorem extractLinks_unparsable_base_panics:
  "extractLinks scheme_lib [link_to ''/x''] '':'' = Inl NilPointerDereference
   \<and> url_Parse scheme_lib '':'' = None"
  by (simp add: sample_defs extractLinks_def link_to_def)

text \<open>
  C8, amended. With a \<^verbatim>\<open>(*URL).Parse\<close> that does not panic on a receiver that is not
  \<^verbatim>\<open>nil\<close>: for every body and every base URL that \<^verbatim>\<open>url.Parse\<close> accepts, the extractor
  returns a list; a link that does not parse or resolve is left out of it. And that is
  every call the crawler makes: in every reachable state a goroutine at
  \<^verbatim>\<open>extractLinks(resp.Body, url)\<close> has a URL that \<^verbatim>\<open>url.Parse\<close> accepts (\<^verbatim>\<open>makeRequest\<close>
  has created a request from it), and its step returns the links and goes on to the
  loop over them, with nothing else changed and no panic.
\<close>

theorem extractLinks_returns_for_parsed_base:
  assumes "\<forall>b ref p. URL_Parse L (Some b) ref \<noteq> Inl p"
  shows "(\<forall>body baseURL. url_Parse L baseURL \<noteq> None \<longrightarrow>
            (\<exists>links. extractLinks L body baseURL = Inr links))
    \<and> (\<forall>baseURL b href. url_Parse L baseURL = Some b \<and> URL_Parse L (Some b) href = Inr None \<longrightarrow>
            extractLinks L [link_to href] baseURL = Inr [])
    \<and> (\<forall>C s g sd u c body.
          lib C = L \<and> reachable C s \<and> panicked s = None \<and> mainpc s \<noteq> Exited
          \<and> g < length (goroutines s) \<and> goroutines s ! g = (sd, Extracting u c body) \<longrightarrow>
            url_Parse L u \<noteq> None
            \<and> (\<exists>links. extractLinks L body u = Inr links
                  \<and> step C (Go g) s = Some (s\<lparr>goroutines := (goroutines s)[g := (sd, Looping u c links)]\<rparr>)))"
proof (intro conjI allI impI)
  fix body baseURL assume "url_Parse L baseURL \<noteq> None"
  then obtain b where "url_Parse L baseURL = Some b" by blast
  from extractLinks_returns [OF this] assms
  show "\<exists>links. extractLinks L body baseURL = Inr links" by blast
next
  fix baseURL b href
  assume "url_Parse L baseURL = Some b \<and> URL_Parse L (Some b) href = Inr None"
  then show "extractLinks L [link_to href] baseURL = Inr []"
    by (simp add: extractLinks_def link_to_def)
next
  fix C :: "'a config" and s g sd u c body
  assume a: "lib C = L \<and> reachable C s \<and> panicked s = None \<and> mainpc s \<noteq> Exited
          \<and> g < length (goroutines s) \<and> goroutines s ! g = (sd, Extracting u c body)"
  then have "url_Parse (lib C) u \<noteq> None" using extracting_is_parsed by blast
  with a show "url_Parse L u \<noteq> None" by simp
next
  fix C :: "'a config" and s g sd u c body
  assume a: "lib C = L \<and> reachable C s \<and> panicked s = None \<and> mainpc s \<noteq> Exited
          \<and> g < length (goroutines s) \<and> goroutines s ! g = (sd, Extracting u c body)"
  then have "url_Parse (lib C) u \<noteq> None" using extracting_is_parsed by blast
  with a obtain b where "url_Parse L u = Some b" by auto
  from extractLinks_returns [OF this] assms
  obtain links where l: "extractLinks L body u = Inr links" by blast
  with a have "step C (Go g) s = Some (s\<lparr>goroutines := (goroutines s)[g := (sd, Looping u c links)]\<rparr>)"
    by (simp add: step.simps at_pc_def)
  with l show "\<exists>links. extractLinks L body u = Inr links
                  \<and> step C (Go g) s = Some (s\<lparr>goroutines := (goroutines s)[g := (sd, Looping u c links)]\<rparr>)"
    by blast
qed

theorem extractLinks_returns_for_parsed_base_witness:
  "url_Parse scheme_lib ''http://a/b/c'' \<noteq> None
   \<and> extractLinks scheme_lib
        [link_to ''/x'', link_to ''y'', link_to ''http://c/d'', link_to '':''] ''http://a/b/c''
       = Inr [''http://a/x'', ''http://a/b/y'', ''http://c/d'']
   \<and> URL_Parse scheme_lib (url_Parse scheme_lib ''http://a/b/c'') '':'' = Inr None
   \<and> extractLinks scheme_lib [link_to '':''] ''http://a/b/c'' = Inr []
   \<and> reachable (main_config absolute_lib) seed_extracting
   \<and> url_Parse absolute_lib ''http://books.toscrape.com'' \<noteq> None
   \<and> step (main_config absolute_lib) (Go 0) seed_extracting
       = Some (seed_extracting\<lparr>goroutines := (goroutines seed_extracting)
                 [0 := (True, Looping ''http://books.toscrape.com'' 1
                                [''http://books.toscrape.com/slow''])]\<rparr>)"
proof -
  note s = extractLinks_returns_for_parsed_base [OF scheme_lib_total]
  note a = extractLinks_returns_for_parsed_base [OF absolute_lib_total]
  have p: "url_Parse scheme_lib ''http://a/b/c'' = Some \<lparr>Scheme = ''http'', Rest = ''//a/b/c''\<rparr>"
    by (simp add: sample_defs)
  have n: "URL_Parse scheme_lib (Some \<lparr>Scheme = ''http'', Rest = ''//a/b/c''\<rparr>) '':'' = Inr None"
    by (simp add: sample_defs)
  have e: "extractLinks scheme_lib
        [link_to ''/x'', link_to ''y'', link_to ''http://c/d'', link_to '':''] ''http://a/b/c''
       = Inr [''http://a/x'', ''http://a/b/y'', ''http://c/d'']"
    by (simp add: sample_defs extractLinks_def link_to_def Let_def)
  note s1 = s [THEN conjunct1, rule_format, of "''http://a/b/c''"
      "[link_to ''/x'', link_to ''y'', link_to ''http://c/d'', link_to '':'']"]
  note s2 = s [THEN conjunct2, THEN conjunct1, rule_format, OF conjI [OF p n]]
  have l: "lib (main_config absolute_lib) = absolute_lib" by (simp add: main_config_def)
  note a3 = a [THEN conjunct2, THEN conjunct2, rule_format, of "main_config absolute_lib"
      seed_extracting 0 True "''http://books.toscrape.com''" 1
      "[link_to ''http://books.toscrape.com/slow'']"]
  have x: "extractLinks absolute_lib [link_to ''http://books.toscrape.com/slow'']
             ''http://books.toscrape.com'' = Inr [''http://books.toscrape.com/slow'']"
    by (simp add: extractLinks_def link_to_def absolute_lib_def)
  from a3 l reachable_seed_extracting seed_extracting_facts x
  have st: "url_Parse absolute_lib ''http://books.toscrape.com'' \<noteq> None
   \<and> step (main_config absolute_lib) (Go 0) seed_extracting
       = Some (seed_extracting\<lparr>goroutines := (goroutines seed_extracting)
                 [0 := (True, Looping ''http://books.toscrape.com'' 1
                                [''http://books.toscrape.com/slow''])]\<rparr>)"
    by auto
  from s1 s2 st e p n reachable_seed_extracting
  show ?thesis by simp
qed

section \<open>Admission before the fetch\<close>

lemma requesting_is_admitted:
  assumes "reachable C s" and "g < length (goroutines s)"
    and "goroutines s ! g = (sd, Requesting u c t0)"
  shows "is_visited (visited s) u \<and> Admit g u \<in> set (history s) \<and> 1 \<le> c \<and> c \<le> count s"
proof -
  from reachable_crawl_inv [OF assms(1)]
  have "locals (history s) (visited s) (count s) (goroutines s)"
    by (simp add: crawl_inv_def history_inv_def)
  from locals_nth [OF this assms(2,3)] show ?thesis by simp
qed

lemma response_keeps_frontier:
  assumes "step C (Response g r) s = Some s'"
  shows "visited s' = visited s \<and> count s' = count s \<and> worklist s' = worklist s"
  using assms by (cases rule: Response_cases) simp_all

lemma visited_is_rejected:
  assumes "step C (Go g) s = Some s'" and "goroutines s ! g = (sd, Checking u)"
    and "is_visited (visited s) u"
  shows "goroutines s' ! g = (sd, Rejecting u)"
  using assms by (cases rule: Go_cases) simp_all

lemma visited_stays_consumed:
  assumes "reachable C s" and "is_visited (visited s) u" and "run C es s = Some s'"
  shows "is_visited (visited s') u \<and> count_list (admitted (history s')) u \<le> 1
         \<and> (\<forall>g sd s''. g < length (goroutines s') \<and> goroutines s' ! g = (sd, Checking u)
                \<and> step C (Go g) s' = Some s''
              \<longrightarrow> goroutines s'' ! g = (sd, Rejecting u))"
proof -
  from visited_run [OF assms(3,2)] have v': "is_visited (visited s') u" .
  from reachable_run [OF assms(1,3)] have "admission_inv C s'"
    using reachable_crawl_inv by (auto simp: crawl_inv_def)
  then have "distinct (admitted (history s'))"
    by (simp add: admission_inv_def)
  then have "count_list (admitted (history s')) u \<le> 1"
    by (rule distinct_count_list)
  with v' visited_is_rejected show ?thesis by blast
qed

text \<open>
  C10. In every reachable state a goroutine whose request is in flight has its URL marked
  in \<^verbatim>\<open>visited\<close> and counted (its \<^verbatim>\<open>current\<close> is between 1 and \<^verbatim>\<open>count\<close>); a failed
  fetch leaves the map, the counter and the worklist as they are; and a marked URL stays
  marked, is admitted at most once, and is rejected by every later check. The sample run
  ends with both admissions used, one Work Item pushed and no branch pending, while the
  page \<^verbatim>\<open>c\<close>, linked from the seed, was rejected.
\<close>

theorem failed_fetch_consumes_slot:
  "(reachable C s \<longrightarrow>
      (\<forall>g sd u c t0. g < length (goroutines s) \<and> goroutines s ! g = (sd, Requesting u c t0)
          \<longrightarrow> is_visited (visited s) u \<and> Admit g u \<in> set (history s) \<and> 1 \<le> c \<and> c \<le> count s)
      \<and> (\<forall>g r s'. fetch_failed r \<and> step C (Response g r) s = Some s'
          \<longrightarrow> visited s' = visited s \<and> count s' = count s \<and> worklist s' = worklist s)
      \<and> (\<forall>u es s'. is_visited (visited s) u \<and> run C es s = Some s'
          \<longrightarrow> is_visited (visited s') u \<and> count_list (admitted (history s')) u \<le> 1
             \<and> (\<forall>g sd s''. g < length (goroutines s') \<and> goroutines s' ! g = (sd, Checking u)
                    \<and> step C (Go g) s' = Some s''
                  \<longrightarrow> goroutines s'' ! g = (sd, Rejecting u))))
   \<and> reachable capped_config capped_final
   \<and> maxURLs capped_config = 2
   \<and> count capped_final = 2
   \<and> pushed (history capped_final) = [''http://a/'']
   \<and> pending_branches capped_final = 0
   \<and> history capped_final =
       [Reject 2 ''http://a/c'', Fetched 1 ''http://a/b'' 500, Admit 1 ''http://a/b'',
        Spawn 0 2 ''http://a/c'', Spawn 0 1 ''http://a/b'', Push 0 ''http://a/'',
        Fetched 0 ''http://a/'' 200, Admit 0 ''http://a/'']"
proof (intro conjI impI allI)
  fix g sd u c t0
  assume r: "reachable C s"
    and "g < length (goroutines s) \<and> goroutines s ! g = (sd, Requesting u c t0)"
  then have *: "is_visited (visited s) u \<and> Admit g u \<in> set (history s) \<and> 1 \<le> c \<and> c \<le> count s"
    using requesting_is_admitted by blast
  from * show "is_visited (visited s) u" by simp
  from * show "Admit g u \<in> set (history s)" by simp
  from * show "1 \<le> c" by simp
  from * show "c \<le> count s" by simp
next
  fix g r s'
  assume "fetch_failed r \<and> step C (Response g r) s = Some s'"
  then have *: "visited s' = visited s \<and> count s' = count s \<and> worklist s' = worklist s"
    using response_keeps_frontier by blast
  from * show "visited s' = visited s" by simp
  from * show "count s' = count s" by simp
  from * show "worklist s' = worklist s" by simp
next
  fix u es s'
  assume r: "reachable C s" and "is_visited (visited s) u \<and> run C es s = Some s'"
  then have v: "is_visited (visited s) u" and run: "run C es s = Some s'" by simp_all
  note * = visited_stays_consumed [OF r v run]
  from * show "is_visited (visited s') u" by simp
  from * show "count_list (admitted (history s')) u \<le> 1" by simp
  fix g sd s''
  assume "g < length (goroutines s') \<and> goroutines s' ! g = (sd, Checking u)
      \<and> step C (Go g) s' = Some s''"
  with * show "goroutines s'' ! g = (sd, Rejecting u)" by blast
qed (use capped_example capped_final_history in simp_all)

theorem failed_fetch_consumes_slot_witness:
  "reachable capped_config capped_requesting
   \<and> goroutines capped_requesting ! 1 = (False, Requesting ''http://a/b'' 2 0)
   \<and> is_visited (visited capped_requesting) ''http://a/b''
   \<and> Admit 1 ''http://a/b'' \<in> set (history capped_requesting)
   \<and> count capped_requesting = 2
   \<and> pushed (history capped_final) = [''http://a/'']"
proof -
  have 1: "goroutines capped_requesting ! 1 = (False, Requesting ''http://a/b'' 2 0)"
    and 2: "1 < length (goroutines capped_requesting)"
    and 3: "count capped_requesting = 2"
    by (simp_all add: capped_requesting_def run_defs capped_config_def capped_prefix_def)
  note inst = failed_fetch_consumes_slot [of capped_config capped_requesting,
      THEN conjunct1, THEN mp, OF reachable_capped_requesting, THEN conjunct1, rule_format]
  from inst [OF conjI [OF 2 1]] reachable_capped_requesting 1 3 show ?thesis
    by (simp add: capped_final_history)
qed

end
